theory Spec2Isabelle
  imports Main "HOL-Library.Word" "HOL-Library.AList"
begin

unbundle bit_operations_syntax

section \<open>Data model\<close>

text \<open>
  The log sequencer (package \<open>log\<close>, \<open>Sequencer.IntegrateBatch\<close>) is embedded as a
  function of an explicit environment (the collaborators the sequencer is constructed
  with and the storage transaction it runs in) and an explicit state (the number of
  clock readings taken and the ordered trace of calls made on the collaborators).

  A Go \<open>[]byte\<close> is a byte list or the nil slice; \<open>bytes.Equal\<close> does not tell the nil
  slice from the empty one, \<open>== nil\<close> does. Unsigned and signed 64-bit integers are
  64-bit words (read through \<open>unat\<close> and \<open>sint\<close>); a \<open>time.Time\<close> is the number of
  nanoseconds since the Unix epoch, \<open>UnixNano\<close> truncates it to 64 bits.
\<close>

type_synonym byte = "8 word"
type_synonym bytes = "byte list option"
type_synonym uint64 = "64 word"
type_synonym int64 = "64 word"
type_synonym Duration = "64 word"
type_synonym time = int

definition bytes_of :: "bytes \<Rightarrow> byte list" where
  "bytes_of b = (case b of None \<Rightarrow> [] | Some xs \<Rightarrow> xs)"

definition bytes_Equal :: "bytes \<Rightarrow> bytes \<Rightarrow> bool" where
  "bytes_Equal a b = (bytes_of a = bytes_of b)"

definition UnixNano :: "time \<Rightarrow> int64" where
  "UnixNano t = word_of_int t"

record Timestamp =
  Seconds :: int64
  Nanos :: "32 word"

record LogLeaf =
  MerkleLeafHash :: bytes
  LeafValue :: bytes
  ExtraData :: bytes
  LeafIndex :: int64
  LeafIdentityHash :: bytes
  QueueTimestamp :: "Timestamp option"
  IntegrateTimestamp :: "Timestamp option"

record CompactNodeID =
  Level :: "32 word"
  Index :: uint64

record StorageNodeID =
  Path :: uint64
  PrefixLenBits :: nat

record Node =
  NodeID :: StorageNodeID
  Hash :: bytes
  NodeRevision :: int64

record LogRootV1 =
  TreeSize :: uint64
  RootHash :: bytes
  TimestampNanos :: uint64
  Revision :: uint64
  Metadata :: bytes

record SignedLogRoot =
  KeyHint :: bytes
  LogRoot :: bytes
  LogRootSignature :: bytes

datatype TreeType = UNKNOWN_TREE_TYPE | LOG | MAP | PREORDERED_LOG

record Tree =
  TreeId :: int64
  TreeType :: TreeType

datatype quotaGroup = Global | Tree | User
datatype quotaKind = Read | Write

record Spec =
  Group :: quotaGroup
  Kind :: quotaKind
  SpecTreeID :: int64

text \<open>
  Every \<open>return ... err\<close> of the source is a constructor; an error that wraps another one
  (\<open>fmt.Errorf("...: %v", err)\<close>) carries it. \<open>External\<close> is an error produced by a
  collaborator (storage, signer, quota manager, protobuf conversion).
\<close>

datatype error =
    ErrTreeNeedsInit
  | External string
  | GetLatestRootFailed int64 error
  | UnmarshalRootFailed int64 error
  | UnsupportedTreeType TreeType
  | LoadBatchFailed int64 error
  | DequeueFailed error
  | LoadSequencedFailed error
  | LeafIndexOverflow int64
  | InitFailed int64 error
  | CreateNodeIDFailed error
  | GetNodesFailed error
  | NodeCountMismatch nat uint64 nat
  | NodeIDMismatch nat
  | NewRangeFailed error
  | RootHashFailed error
  | RootHashMismatch bytes bytes
  | RevisionMismatch int64 int64 int64
  | InvalidIntegrateTimestamp error
  | InvalidLeafIndex int64 uint64
  | InvalidQueueTimestamp
  | LeafIndexMismatch int64 uint64
  | UpdateLeavesFailed error
  | BuildNodesFailed int64 error
  | SetNodesFailed int64 error
  | TimestampNotIncreasing int64 uint64 uint64
  | SignFailed int64 error
  | StoreRootFailed int64 error
  | CoordsOutOfRange
  | InvalidHashes nat nat
  | CorruptedRange

datatype metric =
    seqBatches | seqTreeSize | seqLatency | seqDequeueLatency | seqGetRootLatency
  | seqInitTreeLatency | seqWriteTreeLatency | seqUpdateLeavesLatency
  | seqSetNodesLatency | seqStoreRootLatency | seqCounter | seqMergeDelay | seqTimestamp

text \<open>
  The calls the sequencer makes on its collaborators, in the order it makes them. The
  values observed by histograms and gauges are \<open>float64\<close> and are not recorded; the
  counter of sequenced leaves records the integer it is given.
\<close>

datatype event =
    BeginTx
  | Commit
  | Rollback
  | LatestSignedLogRoot
  | DequeueLeaves int time
  | GetMerkleNodes int64 "StorageNodeID list"
  | WriteRevision
  | UpdateSequencedLeaves "LogLeaf list"
  | SetMerkleNodes "Node list"
  | SignLogRoot LogRootV1
  | StoreSignedLogRoot SignedLogRoot
  | PutTokens int "Spec list"
  | IncReplenished int "Spec list" bool
  | Inc metric int64
  | Observe metric int64
  | SetGauge metric int64
  | Add metric int int64

text \<open>
  Go's \<open>float64\<close> is an IEEE-754 binary64 number. A finite one is \<open>Mant * 2 ^ Exp\<close> for
  integers \<open>Mant\<close> and \<open>Exp\<close>, the mantissa of at most 53 bits. An operation gives its
  exact result rounded to the nearest such number, a tie going to the even mantissa.
  Infinities, NaN and the bounds of the exponent are left out, and so is the range of
  \<open>int\<close> in the conversion back: the numbers of leaves and of tokens stay far below.
\<close>

record float64 =
  Mant :: int
  Exp :: int

text \<open>\<open>x < 1\<close>, that is \<open>Mant * 2 ^ Exp < 1\<close>.\<close>

definition belowOne :: "float64 \<Rightarrow> bool" where
  "belowOne x = (if 0 \<le> Exp x then Mant x * 2 ^ nat (Exp x) < 1
                 else Mant x < 2 ^ nat (- Exp x))"

text \<open>The number of bits by which a mantissa exceeds 53.\<close>

function excess :: "nat \<Rightarrow> nat" where
  "excess m = (if m < 2 ^ 53 then 0 else Suc (excess (m div 2)))"
  by pat_completeness auto
termination
  by (relation "measure id") auto

declare excess.simps [simp del]

text \<open>Rounding \<open>m * 2 ^ e\<close> to the nearest \<open>float64\<close>, ties to even.\<close>

definition roundToFloat64 :: "int \<Rightarrow> int \<Rightarrow> float64" where
  "roundToFloat64 m e =
     (let k = excess (nat \<bar>m\<bar>);
          q = \<bar>m\<bar> div 2 ^ k;
          r = \<bar>m\<bar> mod 2 ^ k;
          q' = (if 2 ^ k < 2 * r \<or> (2 * r = 2 ^ k \<and> odd q) then q + 1 else q)
      in \<lparr>Mant = sgn m * q', Exp = e + int k\<rparr>)"

text \<open>\<open>float64(n)\<close>, \<open>x * y\<close> and \<open>int(x)\<close>, which truncates towards zero.\<close>

definition float64_of_int :: "int \<Rightarrow> float64" where
  "float64_of_int n = roundToFloat64 n 0"

definition fmul :: "float64 \<Rightarrow> float64 \<Rightarrow> float64" where
  "fmul x y = roundToFloat64 (Mant x * Mant y) (Exp x + Exp y)"

definition int_of_float64 :: "float64 \<Rightarrow> int" where
  "int_of_float64 x =
     (if 0 \<le> Exp x then Mant x * 2 ^ nat (Exp x)
      else sgn (Mant x) * (\<bar>Mant x\<bar> div 2 ^ nat (- Exp x)))"

text \<open>
  The environment: the hasher, the time source (its \<open>k\<close>-th reading), the storage
  transaction (what each call answers), the decoder of the stored root, the signer, the
  quota manager and the protobuf timestamp conversions. \<open>QuotaIncreaseFactor\<close> is the
  package variable of that name, a configuration value of the process.
\<close>

record env =
  hasher_HashChildren :: "bytes \<Rightarrow> bytes \<Rightarrow> bytes"
  hasher_EmptyRoot :: bytes
  timeSource_Now :: "nat \<Rightarrow> time"
  storage_begin :: "error option"
  storage_commit :: "error option"
  tx_LatestSignedLogRoot :: "error + SignedLogRoot"
  tx_DequeueLeaves :: "int \<Rightarrow> time \<Rightarrow> error + LogLeaf list"
  tx_GetMerkleNodes :: "int64 \<Rightarrow> StorageNodeID list \<Rightarrow> error + Node list"
  tx_WriteRevision :: "error + int64"
  tx_UpdateSequencedLeaves :: "LogLeaf list \<Rightarrow> error option"
  tx_SetMerkleNodes :: "Node list \<Rightarrow> error option"
  tx_StoreSignedLogRoot :: "SignedLogRoot \<Rightarrow> error option"
  root_UnmarshalBinary :: "bytes \<Rightarrow> error + LogRootV1"
  signer_SignLogRoot :: "LogRootV1 \<Rightarrow> error + SignedLogRoot"
  qm_PutTokens :: "int \<Rightarrow> Spec list \<Rightarrow> error option"
  ptypes_TimestampProto :: "time \<Rightarrow> error + Timestamp"
  ptypes_Timestamp :: "Timestamp \<Rightarrow> error + time"
  QuotaIncreaseFactor :: float64

record state =
  ticks :: nat
  trace :: "event list"

type_synonym 'a prog = "state \<Rightarrow> (error + 'a) \<times> state"

section \<open>Sequencing of effects\<close>

definition return :: "'a \<Rightarrow> 'a prog" where
  "return a = (\<lambda>s. (Inr a, s))"

definition throw :: "error \<Rightarrow> 'a prog" where
  "throw e = (\<lambda>s. (Inl e, s))"

definition thenDo :: "'a prog \<Rightarrow> ('a \<Rightarrow> 'b prog) \<Rightarrow> 'b prog" where
  "thenDo m f = (\<lambda>s. case m s of (Inl e, s') \<Rightarrow> (Inl e, s') | (Inr a, s') \<Rightarrow> f a s')"

text \<open>\<open>x, err := ...; if err != nil { return wrap(err) }\<close>\<close>

definition attempt :: "error + 'a \<Rightarrow> (error \<Rightarrow> error) \<Rightarrow> 'a prog" where
  "attempt r wrap = (case r of Inl e \<Rightarrow> throw (wrap e) | Inr a \<Rightarrow> return a)"

text \<open>\<open>if err := ...; err != nil { return wrap(err) }\<close>\<close>

definition check :: "error option \<Rightarrow> (error \<Rightarrow> error) \<Rightarrow> unit prog" where
  "check r wrap = (case r of Some e \<Rightarrow> throw (wrap e) | None \<Rightarrow> return ())"

definition emit :: "event \<Rightarrow> unit prog" where
  "emit ev = (\<lambda>s. (Inr (), s\<lparr>trace := trace s @ [ev]\<rparr>))"

text \<open>A call on a collaborator: it is recorded, and the environment answers.\<close>

definition call :: "event \<Rightarrow> 'r \<Rightarrow> 'r prog" where
  "call ev r = (\<lambda>s. (Inr r, s\<lparr>trace := trace s @ [ev]\<rparr>))"

definition Now :: "env \<Rightarrow> time prog" where
  "Now env = (\<lambda>s. (Inr (timeSource_Now env (ticks s)), s\<lparr>ticks := Suc (ticks s)\<rparr>))"

text \<open>\<open>metric.Observe(clock.SecondsSince(timeSource, start), label)\<close> reads the clock once.\<close>

definition observeSince :: "env \<Rightarrow> metric \<Rightarrow> int64 \<Rightarrow> unit prog" where
  "observeSince env m label = thenDo (Now env) (\<lambda>_. emit (Observe m label))"

text \<open>\<open>defer\<close>: the deferred calls run when the body returns, whatever it returns.\<close>

definition deferred :: "'a prog \<Rightarrow> unit prog \<Rightarrow> 'a prog" where
  "deferred m d = (\<lambda>s. case m s of (r, s') \<Rightarrow> (r, snd (d s')))"

section \<open>Compact ranges and storage node IDs\<close>

text \<open>
  Package \<open>merkle/compact\<close> and the node IDs of package \<open>storage\<close> belong to the
  repository but not to the sources at hand; they are modelled from the specification.
\<close>

record Range =
  range_end :: uint64
  hashes :: "bytes list"

definition OnesCount64 :: "uint64 \<Rightarrow> nat" where
  "OnesCount64 w = length (filter (bit w) [0..<64])"

definition TrailingZeros64 :: "uint64 \<Rightarrow> nat" where
  "TrailingZeros64 w = length (takeWhile (\<lambda>i. \<not> bit w i) [0..<64])"

text \<open>
  Modelled from the spec: \<open>compact.RangeFactory.NewEmptyRange\<close>, the range "constructed
  as empty at offset 0".
\<close>

definition NewEmptyRange :: "uint64 \<Rightarrow> Range" where
  "NewEmptyRange b = \<lparr>range_end = b, hashes = []\<rparr>"

text \<open>
  Modelled from the spec: \<open>compact.RangeFactory.NewRange\<close> with \<open>begin = 0\<close>, "where
  \<open>len(hashes) = popcount(N)\<close> and hashes are listed from highest-level set bit to lowest".
\<close>

definition NewRange :: "uint64 \<Rightarrow> bytes list \<Rightarrow> error + Range" where
  "NewRange e hs =
     (if length hs \<noteq> OnesCount64 e then Inl (InvalidHashes (length hs) (OnesCount64 e))
      else Inr \<lparr>range_end = e, hashes = hs\<rparr>)"

text \<open>
  Modelled from the spec: \<open>compact.RangeNodesForPrefix\<close>, which "returns, in the same
  order, the compact node IDs whose hashes populate such a range": one perfect subtree
  per set bit of the size, the node at level \<open>b\<close> being the last complete one at that level.
\<close>

definition RangeNodesForPrefix :: "uint64 \<Rightarrow> CompactNodeID list" where
  "RangeNodesForPrefix sz =
     map (\<lambda>b. \<lparr>Level = of_nat b, Index = drop_bit b sz - 1\<rparr>) (filter (bit sz) (rev [0..<64]))"

text \<open>
  Modelled from the spec: \<open>compact.Range.Append\<close>, which "incorporates one additional
  leaf. For every internal node completed by this append (i.e. every pair-merge that
  collapses the two rightmost accumulated hashes at equal level), invokes
  \<open>store(node_id, parent_hash)\<close>". The border is walked from its lowest hash; bit \<open>level\<close>
  of the size says whether a hash of that level is on it.
\<close>

fun mergeBorder :: "(bytes \<Rightarrow> bytes \<Rightarrow> bytes) \<Rightarrow> (CompactNodeID \<Rightarrow> bytes \<Rightarrow> 'a \<Rightarrow> 'a) \<Rightarrow>
    nat \<Rightarrow> uint64 \<Rightarrow> bytes \<Rightarrow> bytes list \<Rightarrow> 'a \<Rightarrow> error + (bytes list \<times> 'a)" where
  "mergeBorder H visit level index seed border acc =
     (if \<not> bit index 0 then Inr (seed # border, acc)
      else case border of
        [] \<Rightarrow> Inl CorruptedRange
      | h # rest \<Rightarrow>
          (let seed' = H h seed; index' = drop_bit 1 index
           in mergeBorder H visit (Suc level) index' seed' rest
                (visit \<lparr>Level = of_nat (Suc level), Index = index'\<rparr> seed' acc)))"

definition Append :: "(bytes \<Rightarrow> bytes \<Rightarrow> bytes) \<Rightarrow> Range \<Rightarrow> bytes \<Rightarrow>
    (CompactNodeID \<Rightarrow> bytes \<Rightarrow> 'a \<Rightarrow> 'a) \<Rightarrow> 'a \<Rightarrow> error + (Range \<times> 'a)" where
  "Append H r hash visit acc =
     (case mergeBorder H visit 0 (range_end r) hash (rev (hashes r)) acc of
        Inl e \<Rightarrow> Inl e
      | Inr (border, acc') \<Rightarrow> Inr (\<lparr>range_end = range_end r + 1, hashes = rev border\<rparr>, acc'))"

text \<open>
  Modelled from the spec: \<open>compact.Range.GetRootHash\<close>, which "computes the root of the
  tree defined by all leaves accumulated so far. If any ephemeral right-border internal
  nodes are materialized during computation, they are reported via \<open>store\<close>". The hashes
  are combined from the lowest to the highest; the empty range has the nil hash, which
  the sequencer overrides. An ephemeral node is the parent of the perfect subtree it
  absorbs: with the lower set bits of the size cleared, its level is one above the lowest
  remaining set bit.
\<close>

fun rootLoop :: "(bytes \<Rightarrow> bytes \<Rightarrow> bytes) \<Rightarrow> (CompactNodeID \<Rightarrow> bytes \<Rightarrow> 'a \<Rightarrow> 'a) option \<Rightarrow>
    uint64 \<Rightarrow> bytes \<Rightarrow> bytes list \<Rightarrow> 'a \<Rightarrow> bytes \<times> 'a" where
  "rootLoop H visitor sz hash [] acc = (hash, acc)"
| "rootLoop H visitor sz hash (h # rest) acc =
     (let hash' = H h hash
      in case visitor of
           None \<Rightarrow> rootLoop H visitor sz hash' rest acc
         | Some visit \<Rightarrow>
             (let sz' = sz AND (sz - 1);
                  level = TrailingZeros64 sz' + 1;
                  index = drop_bit level sz'
              in rootLoop H visitor sz' hash' rest
                   (visit \<lparr>Level = of_nat level, Index = index\<rparr> hash' acc)))"

definition GetRootHash :: "(bytes \<Rightarrow> bytes \<Rightarrow> bytes) \<Rightarrow> Range \<Rightarrow>
    (CompactNodeID \<Rightarrow> bytes \<Rightarrow> 'a \<Rightarrow> 'a) option \<Rightarrow> 'a \<Rightarrow> error + (bytes \<times> 'a)" where
  "GetRootHash H r visitor acc =
     (case rev (hashes r) of
        [] \<Rightarrow> Inr (None, acc)
      | h # rest \<Rightarrow> Inr (rootLoop H visitor (range_end r) h rest acc))"

definition End :: "Range \<Rightarrow> uint64" where
  "End r = range_end r"

text \<open>
  Modelled from the spec: \<open>storage.NewNodeIDForTreeCoords\<close> and \<open>NodeID.Equivalent\<close>. A
  storage node ID is "a path-prefix encoding of a compact node ID within a maximum tree
  depth of 64. Conversion is total for any (level, index) with level \<open>\<le>\<close> 64. Equivalence
  is path-bitstring equality": the path holds the index shifted to the top of 64 bits,
  of which the first \<open>PrefixLenBits\<close> are significant.
\<close>

definition NewNodeIDForTreeCoords :: "int64 \<Rightarrow> int64 \<Rightarrow> nat \<Rightarrow> error + StorageNodeID" where
  "NewNodeIDForTreeCoords depth index maxPathBits =
     (if sint depth < 0 \<or> int maxPathBits < sint depth then Inl CoordsOutOfRange
      else Inr \<lparr>Path = push_bit (nat (sint depth)) index,
                PrefixLenBits = maxPathBits - nat (sint depth)\<rparr>)"

definition bitstring :: "StorageNodeID \<Rightarrow> bool list" where
  "bitstring n = map (bit (Path n)) (rev [64 - PrefixLenBits n..<64])"

definition Equivalent :: "StorageNodeID \<Rightarrow> StorageNodeID \<Rightarrow> bool" where
  "Equivalent a b = (bitstring a = bitstring b)"

section \<open>The sequencer\<close>

definition maxTreeDepth :: nat where
  "maxTreeDepth = 64"

definition wrapErr :: "'a prog \<Rightarrow> (error \<Rightarrow> error) \<Rightarrow> 'a prog" where
  "wrapErr m wrap = (\<lambda>s. case m s of (Inl e, s') \<Rightarrow> (Inl (wrap e), s') | (Inr a, s') \<Rightarrow> (Inr a, s'))"

subsection \<open>\<open>initCompactRangeFromStorage\<close>\<close>

fun storageIDs :: "CompactNodeID list \<Rightarrow> error + StorageNodeID list" where
  "storageIDs [] = Inr []"
| "storageIDs (nid # ids) =
     (case NewNodeIDForTreeCoords (ucast (Level nid)) (Index nid) maxTreeDepth of
        Inl e \<Rightarrow> Inl (CreateNodeIDFailed e)
      | Inr nodeID \<Rightarrow>
          (case storageIDs ids of Inl e \<Rightarrow> Inl e | Inr rest \<Rightarrow> Inr (nodeID # rest)))"

text \<open>
  The loop over \<open>storIDs\<close> that compares \<open>nodes[i].NodeID\<close> with each requested ID; it
  runs after the two lengths were found equal.
\<close>

fun firstMismatch :: "nat \<Rightarrow> Node list \<Rightarrow> StorageNodeID list \<Rightarrow> nat option" where
  "firstMismatch i (n # nodes) (sid # ids) =
     (if \<not> Equivalent (NodeID n) sid then Some i else firstMismatch (Suc i) nodes ids)"
| "firstMismatch i nodes ids = None"

definition initCompactRangeFromStorage :: "env \<Rightarrow> LogRootV1 \<Rightarrow> Range prog" where
  "initCompactRangeFromStorage env root =
     (if TreeSize root = 0 then return (NewEmptyRange 0)
      else
        thenDo (attempt (storageIDs (RangeNodesForPrefix (TreeSize root))) id) (\<lambda>storIDs.
        thenDo (call (GetMerkleNodes (Revision root) storIDs)
                  (tx_GetMerkleNodes env (Revision root) storIDs)) (\<lambda>r.
        thenDo (attempt r GetNodesFailed) (\<lambda>nodes.
        if length nodes \<noteq> length storIDs
        then throw (NodeCountMismatch (length storIDs) (Revision root) (length nodes))
        else case firstMismatch 0 nodes storIDs of
          Some i \<Rightarrow> throw (NodeIDMismatch i)
        | None \<Rightarrow>
            thenDo (attempt (NewRange (TreeSize root) (map Hash nodes)) NewRangeFailed) (\<lambda>cr.
            thenDo (attempt (GetRootHash (hasher_HashChildren env) cr None ()) RootHashFailed)
              (\<lambda>(hash, _).
            if \<not> bytes_Equal hash (RootHash root)
            then throw (RootHashMismatch hash (RootHash root))
            else return cr))))))"

subsection \<open>\<open>buildNodesFromNodeMap\<close>, \<open>prepareLeaves\<close>, \<open>updateCompactRange\<close>\<close>

text \<open>
  The node map is an association list in insertion order; writing a key again replaces
  its hash. Go iterates a map in an unspecified order, so the order of the nodes built
  from it is one of the possible ones.
\<close>

type_synonym nodeMap = "(CompactNodeID \<times> bytes) list"

definition store :: "CompactNodeID \<Rightarrow> bytes \<Rightarrow> nodeMap \<Rightarrow> nodeMap" where
  "store nid hash m = AList.update nid hash m"

fun buildNodesFromNodeMap :: "nodeMap \<Rightarrow> int64 \<Rightarrow> error + Node list" where
  "buildNodesFromNodeMap [] newVersion = Inr []"
| "buildNodesFromNodeMap ((nid, hash) # rest) newVersion =
     (case NewNodeIDForTreeCoords (ucast (Level nid)) (Index nid) maxTreeDepth of
        Inl e \<Rightarrow> Inl e
      | Inr nodeID \<Rightarrow>
          (case buildNodesFromNodeMap rest newVersion of
             Inl e \<Rightarrow> Inl e
           | Inr nodes \<Rightarrow>
               Inr (\<lparr>NodeID = nodeID, Hash = hash, NodeRevision = newVersion\<rparr> # nodes)))"

fun prepareLoop :: "env \<Rightarrow> Timestamp \<Rightarrow> uint64 \<Rightarrow> int64 \<Rightarrow> nat \<Rightarrow> LogLeaf list \<Rightarrow>
    LogLeaf list prog" where
  "prepareLoop env integrateAt begin label i [] = return []"
| "prepareLoop env integrateAt begin label i (leaf # rest) =
     (let got = LeafIndex leaf; want = begin + of_nat i
      in if sint got < 0 \<or> got \<noteq> want then throw (InvalidLeafIndex got want)
         else
           thenDo (case QueueTimestamp leaf of
                     None \<Rightarrow> return ()
                   | Some q \<Rightarrow>
                       if Seconds q \<noteq> 0
                       then (case ptypes_Timestamp env q of
                               Inl e \<Rightarrow> throw InvalidQueueTimestamp
                             | Inr queueTS \<Rightarrow> emit (Observe seqMergeDelay label))
                       else return ()) (\<lambda>_.
           thenDo (prepareLoop env integrateAt begin label (Suc i) rest) (\<lambda>ls.
           return (leaf\<lparr>IntegrateTimestamp := Some integrateAt\<rparr> # ls))))"

definition prepareLeaves :: "env \<Rightarrow> LogLeaf list \<Rightarrow> uint64 \<Rightarrow> int64 \<Rightarrow> LogLeaf list prog" where
  "prepareLeaves env leaves begin label =
     thenDo (Now env) (\<lambda>now.
     thenDo (attempt (ptypes_TimestampProto env now) InvalidIntegrateTimestamp) (\<lambda>integrateAt.
     prepareLoop env integrateAt begin label 0 leaves))"

fun appendLeaves :: "env \<Rightarrow> Range \<Rightarrow> LogLeaf list \<Rightarrow> nodeMap \<Rightarrow> error + (Range \<times> nodeMap)" where
  "appendLeaves env cr [] nodeMap = Inr (cr, nodeMap)"
| "appendLeaves env cr (leaf # leaves) nodeMap =
     (let idx = LeafIndex leaf; sz = End cr
      in if sint idx < 0 \<or> idx \<noteq> sz then Inl (LeafIndexMismatch idx sz)
         else case Append (hasher_HashChildren env) cr (MerkleLeafHash leaf) store
                     (store \<lparr>Level = 0, Index = idx\<rparr> (MerkleLeafHash leaf) nodeMap) of
                Inl e \<Rightarrow> Inl e
              | Inr (cr', nodeMap') \<Rightarrow> appendLeaves env cr' leaves nodeMap')"

text \<open>
  The Go function updates the range behind the pointer it is given and returns the node
  map and the root hash; the model returns the updated range with them.
\<close>

definition updateCompactRange :: "env \<Rightarrow> Range \<Rightarrow> LogLeaf list \<Rightarrow>
    error + (Range \<times> nodeMap \<times> bytes)" where
  "updateCompactRange env cr leaves =
     (case appendLeaves env cr leaves [] of
        Inl e \<Rightarrow> Inl e
      | Inr (cr', nodeMap) \<Rightarrow>
          (case GetRootHash (hasher_HashChildren env) cr' (Some store) nodeMap of
             Inl e \<Rightarrow> Inl e
           | Inr (hash, nodeMap') \<Rightarrow> Inr (cr', nodeMap', hash)))"

subsection \<open>The two sequencing tasks\<close>

datatype sequencingTask = logSequencingTask | preorderedLogSequencingTask

fun assignIndices :: "uint64 \<Rightarrow> nat \<Rightarrow> LogLeaf list \<Rightarrow> error + LogLeaf list" where
  "assignIndices treeSize i [] = Inr []"
| "assignIndices treeSize i (leaf # rest) =
     (let got = treeSize + of_nat i
      in if sint got < 0 then Inl (LeafIndexOverflow got)
         else case assignIndices treeSize (Suc i) rest of
                Inl e \<Rightarrow> Inl e
              | Inr ls \<Rightarrow> Inr (leaf\<lparr>LeafIndex := got\<rparr> # ls))"

fun fetch :: "env \<Rightarrow> sequencingTask \<Rightarrow> uint64 \<Rightarrow> int64 \<Rightarrow> int \<Rightarrow> time \<Rightarrow> LogLeaf list prog" where
  "fetch env logSequencingTask treeSize label limit cutoff =
     thenDo (Now env) (\<lambda>start.
     thenDo (call (DequeueLeaves limit cutoff) (tx_DequeueLeaves env limit cutoff)) (\<lambda>r.
     thenDo (attempt r DequeueFailed) (\<lambda>leaves.
     thenDo (observeSince env seqDequeueLatency label) (\<lambda>_.
     attempt (assignIndices treeSize 0 leaves) id))))"
| "fetch env preorderedLogSequencingTask treeSize label limit cutoff =
     thenDo (Now env) (\<lambda>start.
     thenDo (call (DequeueLeaves limit cutoff) (tx_DequeueLeaves env limit cutoff)) (\<lambda>r.
     thenDo (attempt r LoadSequencedFailed) (\<lambda>leaves.
     thenDo (observeSince env seqDequeueLatency label) (\<lambda>_.
     return leaves))))"

fun update :: "env \<Rightarrow> sequencingTask \<Rightarrow> int64 \<Rightarrow> LogLeaf list \<Rightarrow> unit prog" where
  "update env logSequencingTask label leaves =
     thenDo (Now env) (\<lambda>start.
     thenDo (call (UpdateSequencedLeaves leaves) (tx_UpdateSequencedLeaves env leaves)) (\<lambda>r.
     thenDo (check r UpdateLeavesFailed) (\<lambda>_.
     observeSince env seqUpdateLeavesLatency label)))"
| "update env preorderedLogSequencingTask label leaves = return ()"

subsection \<open>\<open>IntegrateBatch\<close>\<close>

text \<open>The closure passed to \<open>ReadWriteTransaction\<close>, up to the fresh-log check.\<close>

definition loadRoot :: "env \<Rightarrow> Tree \<Rightarrow> LogRootV1 prog" where
  "loadRoot env tree =
     thenDo (Now env) (\<lambda>stageStart.
     thenDo (call LatestSignedLogRoot (tx_LatestSignedLogRoot env)) (\<lambda>r.
     thenDo (attempt r (GetLatestRootFailed (TreeId tree))) (\<lambda>sth.
     thenDo (attempt (root_UnmarshalBinary env (LogRoot sth)) (UnmarshalRootFailed (TreeId tree)))
       (\<lambda>currentRoot.
     thenDo (observeSince env seqGetRootLatency (TreeId tree)) (\<lambda>_.
     thenDo (emit (SetGauge seqTreeSize (TreeId tree))) (\<lambda>_.
     if RootHash currentRoot = None then throw ErrTreeNeedsInit
     else return currentRoot))))))"

definition selectTask :: "Tree \<Rightarrow> error + sequencingTask" where
  "selectTask tree =
     (case TreeType tree of
        LOG \<Rightarrow> Inr logSequencingTask
      | PREORDERED_LOG \<Rightarrow> Inr preorderedLogSequencingTask
      | _ \<Rightarrow> Inl (UnsupportedTreeType (TreeType tree)))"

text \<open>
  \<open>if numLeaves == 0 { ... }\<close>: whether the closure returns without integrating.
\<close>

definition nothingToIntegrate :: "env \<Rightarrow> LogRootV1 \<Rightarrow> Duration \<Rightarrow> LogLeaf list \<Rightarrow> bool prog" where
  "nothingToIntegrate env currentRoot maxRootDurationInterval sequencedLeaves =
     (if length sequencedLeaves = 0
      then thenDo (Now env) (\<lambda>now.
             (let nowNanos = UnixNano now;
                  interval = nowNanos - TimestampNanos currentRoot
              in return (maxRootDurationInterval = 0
                         \<or> sint interval < sint maxRootDurationInterval)))
      else return False)"

text \<open>The closure from the compact range initialisation to its end.\<close>

definition integrate :: "env \<Rightarrow> Tree \<Rightarrow> LogRootV1 \<Rightarrow> sequencingTask \<Rightarrow> LogLeaf list \<Rightarrow>
    (int \<times> LogRootV1 option \<times> SignedLogRoot option) prog" where
  "integrate env tree currentRoot st sequencedLeaves =
     thenDo (Now env) (\<lambda>stageStart.
     thenDo (wrapErr (initCompactRangeFromStorage env currentRoot) (InitFailed (TreeId tree)))
       (\<lambda>cr.
     thenDo (observeSince env seqInitTreeLatency (TreeId tree)) (\<lambda>_.
     thenDo (Now env) (\<lambda>stageStart.
     thenDo (call WriteRevision (tx_WriteRevision env)) (\<lambda>r.
     thenDo (attempt r id) (\<lambda>newVersion.
     if newVersion \<noteq> Revision currentRoot + 1
     then throw (RevisionMismatch (TreeId tree) newVersion (Revision currentRoot + 1))
     else
     thenDo (prepareLeaves env sequencedLeaves (End cr) (TreeId tree)) (\<lambda>leaves.
     thenDo (attempt (updateCompactRange env cr leaves) id) (\<lambda>(cr', nodeMap, newRoot).
     thenDo (observeSince env seqWriteTreeLatency (TreeId tree)) (\<lambda>_.
     thenDo (update env st (TreeId tree) leaves) (\<lambda>_.
     thenDo (Now env) (\<lambda>stageStart.
     thenDo (attempt (buildNodesFromNodeMap nodeMap newVersion) (BuildNodesFailed (TreeId tree)))
       (\<lambda>targetNodes.
     thenDo (call (SetMerkleNodes targetNodes) (tx_SetMerkleNodes env targetNodes)) (\<lambda>r.
     thenDo (check r (SetNodesFailed (TreeId tree))) (\<lambda>_.
     thenDo (observeSince env seqSetNodesLatency (TreeId tree)) (\<lambda>_.
     thenDo (Now env) (\<lambda>stageStart.
     thenDo (Now env) (\<lambda>now.
     (let newLogRoot =
            \<lparr>TreeSize = End cr',
             RootHash = (if End cr' = 0 then hasher_EmptyRoot env else newRoot),
             TimestampNanos = UnixNano now,
             Revision = newVersion,
             Metadata = None\<rparr>
      in
     thenDo (emit (SetGauge seqTreeSize (TreeId tree))) (\<lambda>_.
     thenDo (emit (SetGauge seqTimestamp (TreeId tree))) (\<lambda>_.
     if TimestampNanos newLogRoot \<le> TimestampNanos currentRoot
     then throw (TimestampNotIncreasing (TreeId tree) (TimestampNanos newLogRoot)
                   (TimestampNanos currentRoot))
     else
     thenDo (call (SignLogRoot newLogRoot) (signer_SignLogRoot env newLogRoot)) (\<lambda>r.
     thenDo (attempt r (SignFailed (TreeId tree))) (\<lambda>newSLR.
     thenDo (call (StoreSignedLogRoot newSLR) (tx_StoreSignedLogRoot env newSLR)) (\<lambda>r.
     thenDo (check r (StoreRootFailed (TreeId tree))) (\<lambda>_.
     thenDo (observeSince env seqStoreRootLatency (TreeId tree)) (\<lambda>_.
     return (int (length sequencedLeaves), Some newLogRoot, Some newSLR)
     )))))))))))))))))))))))))"

definition txBody :: "env \<Rightarrow> Tree \<Rightarrow> int \<Rightarrow> Duration \<Rightarrow> Duration \<Rightarrow> time \<Rightarrow>
    (int \<times> LogRootV1 option \<times> SignedLogRoot option) prog" where
  "txBody env tree limit guardWindow maxRootDurationInterval start =
     deferred
       (thenDo (loadRoot env tree) (\<lambda>currentRoot.
        thenDo (attempt (selectTask tree) id) (\<lambda>st.
        thenDo (wrapErr (fetch env st (TreeSize currentRoot) (TreeId tree) limit
                           (start + sint (- guardWindow)))
                  (LoadBatchFailed (TreeId tree))) (\<lambda>sequencedLeaves.
        thenDo (nothingToIntegrate env currentRoot maxRootDurationInterval sequencedLeaves)
          (\<lambda>nothing.
        if nothing then return (int (length sequencedLeaves), None, None)
        else integrate env tree currentRoot st sequencedLeaves)))))
       (thenDo (observeSince env seqLatency (TreeId tree)) (\<lambda>_.
        emit (Inc seqBatches (TreeId tree))))"

text \<open>
  Modelled from the spec: \<open>storage.LogStorage.ReadWriteTransaction\<close>, which "opens a
  tx"; an error of the body is "returned unchanged to caller" and "the transaction
  aborts", otherwise "the transaction commits atomically", and a commit may fail.
\<close>

definition ReadWriteTransaction :: "env \<Rightarrow> 'a prog \<Rightarrow> 'a prog" where
  "ReadWriteTransaction env f =
     thenDo (call BeginTx (storage_begin env)) (\<lambda>b.
     thenDo (check b id) (\<lambda>_.
     (\<lambda>s. case f s of
             (Inl e, s') \<Rightarrow> (Inl e, s'\<lparr>trace := trace s' @ [Rollback]\<rparr>)
           | (Inr a, s') \<Rightarrow>
               thenDo (call Commit (storage_commit env)) (\<lambda>c.
               thenDo (check c id) (\<lambda>_. return a)) s')))"

text \<open>
  \<open>quotaIncreaseFactor\<close>: a factor below 1 is normalised to 1. (The source also assigns 1
  to the variable then, which changes no later result of the function.)
\<close>

definition quotaIncreaseFactor :: "env \<Rightarrow> float64" where
  "quotaIncreaseFactor env =
     (if belowOne (QuotaIncreaseFactor env) then \<lparr>Mant = 1, Exp = 0\<rparr>
      else QuotaIncreaseFactor env)"

text \<open>
  \<open>replenishQuota\<close>, with \<open>tokens := int(float64(numLeaves) * quotaIncreaseFactor())\<close>.
  A failure of the quota manager is logged and counted, not returned.
\<close>

definition replenishTokens :: "env \<Rightarrow> int \<Rightarrow> int" where
  "replenishTokens env numLeaves =
     int_of_float64 (fmul (float64_of_int numLeaves) (quotaIncreaseFactor env))"

definition replenishQuota :: "env \<Rightarrow> int \<Rightarrow> int64 \<Rightarrow> unit prog" where
  "replenishQuota env numLeaves treeID =
     (if numLeaves > 0
      then (let tokens = replenishTokens env numLeaves;
                specs = [\<lparr>Group = Tree, Kind = Read, SpecTreeID = treeID\<rparr>,
                         \<lparr>Group = Tree, Kind = Write, SpecTreeID = treeID\<rparr>,
                         \<lparr>Group = Global, Kind = Read, SpecTreeID = 0\<rparr>,
                         \<lparr>Group = Global, Kind = Write, SpecTreeID = 0\<rparr>]
            in thenDo (call (PutTokens tokens specs) (qm_PutTokens env tokens specs)) (\<lambda>err.
               emit (IncReplenished tokens specs (err = None))))
      else return ())"

definition IntegrateBatch :: "env \<Rightarrow> Tree \<Rightarrow> int \<Rightarrow> Duration \<Rightarrow> Duration \<Rightarrow> state \<Rightarrow>
    (int \<times> error option) \<times> state" where
  "IntegrateBatch env tree limit guardWindow maxRootDurationInterval s0 =
     (case thenDo (Now env) (\<lambda>start.
             ReadWriteTransaction env
               (txBody env tree limit guardWindow maxRootDurationInterval start)) s0 of
        (Inl err, s1) \<Rightarrow> ((0, Some err), s1)
      | (Inr (numLeaves, newLogRoot, newSLR), s1) \<Rightarrow>
          (case thenDo (replenishQuota env numLeaves (TreeId tree)) (\<lambda>_.
                  emit (Add seqCounter numLeaves (TreeId tree))) s1 of
             (_, s2) \<Rightarrow> ((numLeaves, None), s2)))"

section \<open>A reference Merkle tree hash\<close>

text \<open>
  The reference against which the root hash is checked: the Merkle tree hash of a list
  of leaf hashes, computed from scratch by splitting the list at the largest power of
  two strictly below its length. The empty list has the hasher's empty root; a single
  leaf hash is its own root.
\<close>


function pow2Below :: "nat \<Rightarrow> nat \<Rightarrow> nat" where
  "pow2Below k n = (if 0 < k \<and> 2 * k < n then pow2Below (2 * k) n else k)"
  by pat_completeness auto
termination
  by (relation "measure (\<lambda>(k, n). n - k)") auto

declare pow2Below.simps [simp del]

definition splitPoint :: "nat \<Rightarrow> nat" where
  "splitPoint n = pow2Below 1 n"

lemma pow2Below_bounds: "0 < k \<Longrightarrow> k < n \<Longrightarrow> 0 < pow2Below k n \<and> pow2Below k n < n"
proof (induction k n rule: pow2Below.induct)
  case (1 k n)
  show ?case
  proof (cases "2 * k < n")
    case True
    with 1 show ?thesis using pow2Below.simps [of k n] by simp
  next
    case False
    with 1 show ?thesis using pow2Below.simps [of k n] by simp
  qed
qed

lemma splitPoint_bounds: "2 \<le> n \<Longrightarrow> 0 < splitPoint n \<and> splitPoint n < n"
  unfolding splitPoint_def by (rule pow2Below_bounds) auto

function merkleRoot :: "(bytes \<Rightarrow> bytes \<Rightarrow> bytes) \<Rightarrow> bytes \<Rightarrow> bytes list \<Rightarrow> bytes" where
  "merkleRoot H E [] = E"
| "merkleRoot H E [x] = x"
| "merkleRoot H E (x # y # zs) =
     (let k = splitPoint (length (x # y # zs))
      in H (merkleRoot H E (take k (x # y # zs))) (merkleRoot H E (drop k (x # y # zs))))"
  by pat_completeness auto
termination
proof (relation "measure (\<lambda>(H, E, xs). length xs)", goal_cases)
  case 1
  show ?case by simp
next
  case (2 H E x y zs k)
  have "2 \<le> length (x # y # zs)" by simp
  from splitPoint_bounds [OF this] 2 show ?case by simp
next
  case (3 H E x y zs k)
  have "2 \<le> length (x # y # zs)" by simp
  from splitPoint_bounds [OF this] 3 show ?case by simp
qed

lemma pow2Below_pow: "j \<le> l \<Longrightarrow> 2 ^ l < n \<Longrightarrow> n \<le> 2 ^ Suc l \<Longrightarrow> pow2Below (2 ^ j) n = 2 ^ l"
proof (induction "l - j" arbitrary: j)
  case 0
  then have "j = l" by simp
  with 0 show ?case by (subst pow2Below.simps) simp
next
  case (Suc d)
  then have "Suc j \<le> l" by simp
  then have "(2::nat) ^ Suc j \<le> 2 ^ l" by (rule power_increasing) simp
  with Suc.prems have lt: "2 * 2 ^ j < n" by simp
  have "pow2Below (2 ^ Suc j) n = 2 ^ l"
    using Suc.hyps(1) [of "Suc j"] Suc.hyps(2) \<open>Suc j \<le> l\<close> Suc.prems by simp
  with lt show ?case by (subst pow2Below.simps) simp
qed

lemma splitPoint_pow: "2 ^ l < n \<Longrightarrow> n \<le> 2 ^ Suc l \<Longrightarrow> splitPoint n = 2 ^ l"
  unfolding splitPoint_def using pow2Below_pow [of 0 l n] by simp

lemma merkleRoot_split:
  assumes "2 ^ l < length xs" "length xs \<le> 2 ^ Suc l"
  shows "merkleRoot H E xs = H (merkleRoot H E (take (2 ^ l) xs)) (merkleRoot H E (drop (2 ^ l) xs))"
proof -
  have "1 < length xs" using assms(1) by (metis less_one not_less_eq one_le_power one_le_numeral order_le_less_trans linorder_not_less)
  then obtain x y zs where xs: "xs = x # y # zs"
    by (cases xs; cases "tl xs") auto
  show ?thesis
    unfolding xs using splitPoint_pow [OF assms] by (simp add: xs Let_def)
qed


text \<open>
  The hash of the node with compact ID (level, index): by the data model it "covers
  leaves \<open>[index * 2^level, (index + 1) * 2^level)\<close>", so it is the reference hash of
  that slice of the leaves.
\<close>

definition subtreeRoot :: "(bytes \<Rightarrow> bytes \<Rightarrow> bytes) \<Rightarrow> bytes \<Rightarrow> bytes list \<Rightarrow> nat \<Rightarrow> nat \<Rightarrow> bytes" where
  "subtreeRoot H E xs l i = merkleRoot H E (take (2 ^ l) (drop (i * 2 ^ l) xs))"


definition subtreeHash :: "(bytes \<Rightarrow> bytes \<Rightarrow> bytes) \<Rightarrow> bytes \<Rightarrow> bytes list \<Rightarrow> CompactNodeID \<Rightarrow> bytes" where
  "subtreeHash H E xs nid = subtreeRoot H E xs (unat (Level nid)) (unat (Index nid))"


section \<open>Correctness of the compact range\<close>

text \<open>
  \<open>border H E xs l m\<close> lists, lowest level first, the hashes of the perfect subtrees
  on the right border of the tree over the leaves \<open>xs\<close>, seen from level \<open>l\<close> where
  \<open>m\<close> complete nodes exist. It is a device of the proofs.
\<close>

function border :: "(bytes \<Rightarrow> bytes \<Rightarrow> bytes) \<Rightarrow> bytes \<Rightarrow> bytes list \<Rightarrow> nat \<Rightarrow> nat \<Rightarrow> bytes list" where
  "border H E xs l m =
     (if m = 0 then []
      else if odd m then subtreeRoot H E xs l (m - 1) # border H E xs (Suc l) (m div 2)
      else border H E xs (Suc l) (m div 2))"
  by pat_completeness auto
termination
  by (relation "measure (\<lambda>(H, E, xs, l, m). m)") auto

declare border.simps [simp del]

lemma border_0: "border H E xs l 0 = []"
  by (subst border.simps) simp

lemma border_odd: "odd m \<Longrightarrow> border H E xs l m = subtreeRoot H E xs l (m - 1) # border H E xs (Suc l) (m div 2)"
  by (subst border.simps) (auto simp: odd_pos)

lemma border_even: "even m \<Longrightarrow> border H E xs l m = border H E xs (Suc l) (m div 2)"
  by (subst border.simps) (auto simp: border_0)

lemma subtreeRoot_append:
  "(Suc i) * 2 ^ l \<le> length xs \<Longrightarrow> subtreeRoot H E (xs @ ys) l i = subtreeRoot H E xs l i"
  by (simp add: subtreeRoot_def)

lemma subtreeRoot_parent:
  assumes "(Suc i) * 2 ^ Suc l \<le> length xs"
  shows "subtreeRoot H E xs (Suc l) i = H (subtreeRoot H E xs l (2 * i)) (subtreeRoot H E xs l (Suc (2 * i)))"
proof -
  define c where "c = take (2 ^ Suc l) (drop (i * 2 ^ Suc l) xs)"
  have len: "length c = 2 ^ Suc l" using assms by (simp add: c_def)
  have lt: "(2::nat) ^ l < 2 ^ Suc l" by simp
  have "merkleRoot H E c = H (merkleRoot H E (take (2 ^ l) c)) (merkleRoot H E (drop (2 ^ l) c))"
    by (rule merkleRoot_split) (use len lt in \<open>simp_all only: order_refl\<close>)
  moreover have "take (2 ^ l) c = take (2 ^ l) (drop (2 * i * 2 ^ l) xs)"
    by (simp add: c_def take_take min_def mult_ac)
  moreover have "drop (2 ^ l) c = take (2 ^ l) (drop (Suc (2 * i) * 2 ^ l) xs)"
    by (simp add: c_def drop_take add.commute mult_ac)
  ultimately show ?thesis by (simp add: subtreeRoot_def c_def)
qed

lemma border_append:
  "m * 2 ^ l \<le> length xs \<Longrightarrow> border H E (xs @ ys) l m = border H E xs l m"
proof (induction m arbitrary: l rule: less_induct)
  case (less m)
  show ?case
  proof (cases "m = 0")
    case True
    then show ?thesis by (simp add: border_0)
  next
    case False
    then have lt: "m div 2 < m" by simp
    have "2 * (m div 2) \<le> m" by simp
    then have "(2 * (m div 2)) * 2 ^ l \<le> m * 2 ^ l" by (rule mult_le_mono1)
    then have "(m div 2) * 2 ^ Suc l \<le> m * 2 ^ l"
      by (simp add: mult_ac)
    from le_trans [OF this less.prems] have le: "(m div 2) * 2 ^ Suc l \<le> length xs" .
    note IH = less.IH [OF lt le]
    show ?thesis
    proof (cases "odd m")
      case True
      then have "Suc (m - 1) = m" by (simp add: False)
      with less.prems have "Suc (m - 1) * 2 ^ l \<le> length xs" by simp
      then have "subtreeRoot H E (xs @ ys) l (m - 1) = subtreeRoot H E xs l (m - 1)"
        by (rule subtreeRoot_append)
      with True IH show ?thesis by (simp add: border_odd)
    next
      case False
      with IH show ?thesis by (simp add: border_even)
    qed
  qed
qed

declare mergeBorder.simps [simp del]

lemma bit0_unat: "bit (w :: uint64) 0 \<longleftrightarrow> odd (unat w)"
  by (metis bit_0 even_of_nat mod_by_0 unat_mod word_arith_nat_mod)

lemma unat_drop_bit1: "unat (drop_bit 1 (w :: uint64)) = unat w div 2"
  by (simp add: drop_bit_eq_div unat_div)

lemma mergeBorder_even:
  "\<not> bit index 0 \<Longrightarrow> mergeBorder H visit l index seed b acc = Inr (seed # b, acc)"
  by (subst mergeBorder.simps) simp

lemma mergeBorder_odd:
  "bit index 0 \<Longrightarrow> mergeBorder H visit l index seed (h # rest) acc =
     mergeBorder H visit (Suc l) (drop_bit 1 index) (H h seed) rest
       (visit \<lparr>Level = of_nat (Suc l), Index = drop_bit 1 index\<rparr> (H h seed) acc)"
  by (subst mergeBorder.simps) (simp add: Let_def)

lemma nonneg_unat: "0 \<le> sint (w :: uint64) \<Longrightarrow> unat w < 2 ^ 63"
proof -
  assume nn: "0 \<le> sint w"
  have lt: "sint w < 2 ^ 63" using sint_less [of w] by simp
  have "uint w = sint w" using uint_sint [of w] nn lt by (simp add: take_bit_int_eq_self)
  with lt have "uint w < 2 ^ 63" by simp
  then show ?thesis by (simp add: unat_eq_nat_uint nat_less_iff del: nat_uint_eq)
qed

lemma unat_succ: "unat (w :: uint64) < 2 ^ 63 \<Longrightarrow> unat (w + 1) = Suc (unat w)"
  using unat_add_lem [of w 1] by simp

lemma mergeBorder_border:
  assumes "length xs = Suc (unat index) * 2 ^ l"
    and "seed = subtreeRoot H E xs l (unat index)"
  shows "\<exists>acc'. mergeBorder H visit l index seed (border H E xs l (unat index)) acc
           = Inr (border H E xs l (Suc (unat index)), acc')"
  using assms
proof (induction "unat index" arbitrary: index l seed acc rule: less_induct)
  case less
  define m where "m = unat index"
  show ?case
  proof (cases "odd m")
    case False
    then have nb: "\<not> bit index 0" by (simp add: bit0_unat m_def)
    from False have "border H E xs l (Suc m) = subtreeRoot H E xs l m # border H E xs (Suc l) (m div 2)"
      using border_odd [of "Suc m" H E xs l] by simp
    moreover from False have "border H E xs l m = border H E xs (Suc l) (m div 2)"
      by (simp add: border_even)
    ultimately have "border H E xs l (Suc m) = seed # border H E xs l m"
      using less.prems(2) by (simp add: m_def)
    then show ?thesis by (simp add: m_def mergeBorder_even [OF nb])
  next
    case True
    then have b: "bit index 0" by (simp add: bit0_unat m_def)
    define index' where "index' = drop_bit 1 index"
    define h where "h = subtreeRoot H E xs l (m - 1)"
    define seed' where "seed' = H h seed"
    have m': "unat index' = m div 2" unfolding index'_def m_def by (rule unat_drop_bit1)
    from True have pos: "0 < m" by (rule odd_pos)
    then have lt: "unat index' < unat index" by (simp add: m' m_def [symmetric])
    from True have two: "2 * (m div 2) = m - 1" "Suc (2 * (m div 2)) = m"
      by (auto elim: oddE)
    have "Suc m = 2 * Suc (m div 2)" using two(2) by simp
    then have "Suc m * 2 ^ l = (2 * Suc (m div 2)) * 2 ^ l" by (rule arg_cong)
    also have "\<dots> = Suc (m div 2) * 2 ^ Suc l" by simp
    finally have len: "length xs = Suc (unat index') * 2 ^ Suc l"
      using less.prems(1) by (simp only: m' m_def)
    then have "Suc (m div 2) * 2 ^ Suc l \<le> length xs" by (simp only: m')
    from subtreeRoot_parent [OF this, of H E]
    have "subtreeRoot H E xs (Suc l) (m div 2) = H (subtreeRoot H E xs l (m - 1)) (subtreeRoot H E xs l m)"
      using pos by (simp add: two(1))
    then have seed: "seed' = subtreeRoot H E xs (Suc l) (unat index')"
      using less.prems(2) by (simp only: seed'_def h_def m' m_def)
    from less.hyps [OF lt len seed]
    obtain acc' where r:
      "mergeBorder H visit (Suc l) index' seed' (border H E xs (Suc l) (unat index'))
         (visit \<lparr>Level = of_nat (Suc l), Index = index'\<rparr> seed' acc)
       = Inr (border H E xs (Suc l) (Suc (unat index')), acc')"
      by blast
    have "even (Suc m)" using True by simp
    then have "border H E xs l (Suc m) = border H E xs (Suc l) (Suc m div 2)"
      by (rule border_even)
    moreover have "Suc m div 2 = Suc (m div 2)" using two(2) by linarith
    ultimately have e1: "border H E xs l (Suc m) = border H E xs (Suc l) (Suc (unat index'))"
      by (simp only: m')
    have e2: "border H E xs l m = h # border H E xs (Suc l) (unat index')"
      using border_odd [OF True, of H E xs l] by (simp only: h_def m')
    have "mergeBorder H visit l index seed (border H E xs l m) acc
        = Inr (border H E xs l (Suc m), acc')"
      using mergeBorder_odd [OF b, of H visit l seed h "border H E xs (Suc l) (unat index')" acc] r
      by (simp only: e1 e2 index'_def seed'_def)
    then show ?thesis by (auto simp: m_def)
  qed
qed

lemma rootLoop_fst: "fst (rootLoop H visitor sz hash hs acc) = foldl (\<lambda>a h. H h a) hash hs"
  by (induction hs arbitrary: sz hash acc) (auto simp: Let_def split: option.splits)

lemma foldl_border:
  assumes "seed = merkleRoot H E (drop (m * 2 ^ l) xs)"
    and "m * 2 ^ l < length xs" and "length xs \<le> m * 2 ^ l + 2 ^ l"
  shows "foldl (\<lambda>a h. H h a) seed (border H E xs l m) = merkleRoot H E xs"
  using assms
proof (induction m arbitrary: l seed rule: less_induct)
  case (less m)
  show ?case
  proof (cases "m = 0")
    case True
    with less.prems show ?thesis by (simp add: border_0)
  next
    case False
    then have lt: "m div 2 < m" by simp
    show ?thesis
    proof (cases "odd m")
      case False
      then have e: "(m div 2) * 2 ^ Suc l = m * 2 ^ l" by (auto elim!: evenE)
      have p1: "seed = merkleRoot H E (drop ((m div 2) * 2 ^ Suc l) xs)"
        using less.prems(1) by (simp only: e)
      have p2: "(m div 2) * 2 ^ Suc l < length xs" using less.prems(2) by (simp only: e)
      have p3: "length xs \<le> (m div 2) * 2 ^ Suc l + 2 ^ Suc l" using less.prems(3) by (simp only: e) simp
      have "foldl (\<lambda>a h. H h a) seed (border H E xs (Suc l) (m div 2)) = merkleRoot H E xs"
        by (rule less.IH [OF lt p1 p2 p3])
      with False show ?thesis by (simp add: border_even)
    next
      case True
      then have e: "(m div 2) * 2 ^ Suc l = (m - 1) * 2 ^ l" and m: "m = Suc (m - 1)"
        by (auto elim!: oddE)
      define c where "c = drop ((m - 1) * 2 ^ l) xs"
      have mm: "m * 2 ^ l = (m - 1) * 2 ^ l + 2 ^ l" by (subst m) simp
      have lenc: "length c = length xs - (m - 1) * 2 ^ l" by (simp add: c_def)
      have c1: "2 ^ l < length c" using less.prems(2) mm lenc by linarith
      have c2: "length c \<le> 2 ^ Suc l" using less.prems(3) mm lenc by simp
      have "drop (2 ^ l) c = drop (m * 2 ^ l) xs" by (simp add: c_def mm add.commute)
      moreover have "take (2 ^ l) c = take (2 ^ l) (drop ((m - 1) * 2 ^ l) xs)" by (simp add: c_def)
      ultimately have "merkleRoot H E c = H (subtreeRoot H E xs l (m - 1)) seed"
        using merkleRoot_split [OF c1 c2, of H E] less.prems(1) by (simp add: subtreeRoot_def)
      then have seed': "H (subtreeRoot H E xs l (m - 1)) seed = merkleRoot H E (drop ((m div 2) * 2 ^ Suc l) xs)"
        by (simp only: e c_def)
      have b1: "(m div 2) * 2 ^ Suc l < length xs" using less.prems(2) mm by (simp only: e)
      have b2: "length xs \<le> (m div 2) * 2 ^ Suc l + 2 ^ Suc l" using less.prems(3) mm by (simp only: e) simp
      from less.IH [OF lt seed' b1 b2] True show ?thesis by (simp add: border_odd)
    qed
  qed
qed

lemma border_root:
  assumes "length xs = m * 2 ^ l" and "0 < m"
  shows "\<exists>h rest. border H E xs l m = h # rest \<and> foldl (\<lambda>a h. H h a) h rest = merkleRoot H E xs"
  using assms
proof (induction m arbitrary: l rule: less_induct)
  case (less m)
  show ?case
  proof (cases "odd m")
    case False
    then have e: "(m div 2) * 2 ^ Suc l = m * 2 ^ l" by (auto elim!: evenE)
    from False less.prems(2) have "0 < m div 2" by (auto elim!: evenE)
    moreover have "m div 2 < m" using less.prems(2) by simp
    moreover have "length xs = (m div 2) * 2 ^ Suc l" using less.prems(1) by (simp only: e)
    ultimately show ?thesis using less.IH [of "m div 2" "Suc l"] False by (simp add: border_even)
  next
    case True
    then have e: "(m div 2) * 2 ^ Suc l = (m - 1) * 2 ^ l" and m: "m = Suc (m - 1)"
      by (auto elim!: oddE)
    have mm: "m * 2 ^ l = (m - 1) * 2 ^ l + 2 ^ l" by (subst m) simp
    have "length (drop ((m - 1) * 2 ^ l) xs) = 2 ^ l" using less.prems(1) mm by simp
    then have "take (2 ^ l) (drop ((m - 1) * 2 ^ l) xs) = drop ((m - 1) * 2 ^ l) xs" by simp
    then have seed: "subtreeRoot H E xs l (m - 1) = merkleRoot H E (drop ((m div 2) * 2 ^ Suc l) xs)"
      by (simp only: subtreeRoot_def e)
    have b1: "(m div 2) * 2 ^ Suc l < length xs" using less.prems(1) mm by (simp only: e) simp
    have b2: "length xs \<le> (m div 2) * 2 ^ Suc l + 2 ^ Suc l" using less.prems(1) mm by (simp only: e) simp
    from foldl_border [OF seed b1 b2] True show ?thesis by (simp add: border_odd)
  qed
qed

definition covers :: "(bytes \<Rightarrow> bytes \<Rightarrow> bytes) \<Rightarrow> bytes \<Rightarrow> Range \<Rightarrow> bytes list \<Rightarrow> bool" where
  "covers H E r xs \<longleftrightarrow>
     unat (range_end r) = length xs \<and> rev (hashes r) = border H E xs 0 (length xs)"

lemma covers_empty: "covers H E (NewEmptyRange 0) []"
  by (simp add: covers_def NewEmptyRange_def border_0)

lemma Append_covers:
  assumes "covers H E r xs" and "length xs < 2 ^ 63"
  shows "\<exists>r' acc'. Append H r x visit acc = Inr (r', acc') \<and> covers H E r' (xs @ [x])"
proof -
  from assms(1) have n: "unat (range_end r) = length xs"
    and b: "rev (hashes r) = border H E xs 0 (length xs)"
    by (simp_all add: covers_def)
  have len: "length (xs @ [x]) = Suc (unat (range_end r)) * 2 ^ 0" by (simp add: n)
  have seed: "x = subtreeRoot H E (xs @ [x]) 0 (unat (range_end r))"
    by (simp add: subtreeRoot_def n)
  have "border H E (xs @ [x]) 0 (length xs) = border H E xs 0 (length xs)"
    by (rule border_append) simp
  with b have b': "rev (hashes r) = border H E (xs @ [x]) 0 (unat (range_end r))"
    by (simp add: n)
  from mergeBorder_border [OF len seed, of visit acc] obtain acc' where
    "mergeBorder H visit 0 (range_end r) x (rev (hashes r)) acc
       = Inr (border H E (xs @ [x]) 0 (Suc (unat (range_end r))), acc')"
    unfolding b' by blast
  moreover have "unat (range_end r + 1) = Suc (length xs)"
    using unat_succ [of "range_end r"] assms(2) n by simp
  ultimately show ?thesis
    by (simp add: Append_def covers_def n)
qed

lemma appendLeaves_covers:
  assumes "appendLeaves env cr leaves nm = Inr (cr', nm')"
    and "covers (hasher_HashChildren env) E cr xs"
  shows "covers (hasher_HashChildren env) E cr' (xs @ map MerkleLeafHash leaves)"
  using assms
proof (induction leaves arbitrary: cr nm xs)
  case Nil
  then show ?case by simp
next
  case (Cons leaf leaves)
  from Cons.prems(1) have ok: "0 \<le> sint (LeafIndex leaf)" "LeafIndex leaf = End cr"
    by (auto simp: Let_def split: if_splits)
  from Cons.prems(2) have "unat (range_end cr) = length xs" by (simp add: covers_def)
  with ok nonneg_unat [of "LeafIndex leaf"] have lt: "length xs < 2 ^ 63" by (simp add: End_def)
  from Append_covers [OF Cons.prems(2) lt, of "MerkleLeafHash leaf" store
      "store \<lparr>Level = 0, Index = LeafIndex leaf\<rparr> (MerkleLeafHash leaf) nm"]
  obtain r1 nm1 where
    a: "Append (hasher_HashChildren env) cr (MerkleLeafHash leaf) store
          (store \<lparr>Level = 0, Index = LeafIndex leaf\<rparr> (MerkleLeafHash leaf) nm) = Inr (r1, nm1)"
    and c: "covers (hasher_HashChildren env) E r1 (xs @ [MerkleLeafHash leaf])"
    by blast
  from Cons.prems(1) ok a have "appendLeaves env r1 leaves nm1 = Inr (cr', nm')"
    by (simp add: Let_def)
  from Cons.IH [OF this c] show ?case by simp
qed

lemma GetRootHash_covers:
  assumes "covers H E r xs" and "xs \<noteq> []"
  shows "\<exists>acc'. GetRootHash H r visitor acc = Inr (merkleRoot H E xs, acc')"
proof -
  from assms(1) have b: "rev (hashes r) = border H E xs 0 (length xs)"
    by (simp add: covers_def)
  from assms(2) have "length xs = length xs * 2 ^ 0" "0 < length xs" by simp_all
  from border_root [OF this, of H E] obtain h rest where
    hr: "border H E xs 0 (length xs) = h # rest"
    and f: "foldl (\<lambda>a h. H h a) h rest = merkleRoot H E xs"
    by blast
  have "fst (rootLoop H visitor (range_end r) h rest acc) = merkleRoot H E xs"
    by (simp add: rootLoop_fst f)
  then show ?thesis
    by (cases "rootLoop H visitor (range_end r) h rest acc") (simp add: GetRootHash_def b hr)
qed

lemma GetRootHash_visitor:
  assumes "GetRootHash H r v1 a1 = Inr (h1, b1)" and "GetRootHash H r v2 a2 = Inr (h2, b2)"
  shows "h1 = h2"
proof (cases "rev (hashes r)")
  case Nil
  with assms show ?thesis by (simp add: GetRootHash_def)
next
  case (Cons h rest)
  with assms have "h1 = fst (rootLoop H v1 (range_end r) h rest a1)"
    "h2 = fst (rootLoop H v2 (range_end r) h rest a2)"
    by (auto simp: GetRootHash_def)
  then show ?thesis by (simp add: rootLoop_fst)
qed


lemma unat_drop_bit_div: "unat (drop_bit b (N :: uint64)) = unat N div 2 ^ b"
  by (subst unat_drop_bit_eq) (rule drop_bit_eq_div)

lemma bit_unat_div: "bit (N :: uint64) b \<longleftrightarrow> odd (unat N div 2 ^ b)"
proof -
  have "bit N b \<longleftrightarrow> bit (drop_bit b N) 0" by (simp add: bit_drop_bit_eq)
  also have "\<dots> \<longleftrightarrow> odd (unat (drop_bit b N))" by (rule bit0_unat)
  finally show ?thesis by (simp only: unat_drop_bit_div)
qed

lemma filter_border:
  "l \<le> 64 \<Longrightarrow>
   map (\<lambda>b. subtreeRoot H E xs b (unat N div 2 ^ b - 1)) (filter (bit (N :: uint64)) [l..<64])
     = border H E xs l (unat N div 2 ^ l)"
proof (induction "64 - l" arbitrary: l)
  case 0
  then have l: "l = 64" by simp
  have "unat N < 2 ^ 64" using unsigned_less [of N] by simp
  then have "unat N div 2 ^ 64 = 0" by simp
  then show ?case by (simp add: l border_0)
next
  case (Suc k)
  then have lt: "l < 64" and k: "k = 64 - Suc l" and le: "Suc l \<le> 64" by simp_all
  have upt: "[l..<64] = l # [Suc l..<64]" using lt by (rule upt_conv_Cons)
  have "(2::nat) ^ Suc l = 2 ^ l * 2" by simp
  then have d: "unat N div 2 ^ l div 2 = unat N div 2 ^ Suc l"
    by (simp only: div_mult2_eq)
  note IH = Suc.hyps(1) [OF k le]
  show ?case
  proof (cases "bit N l")
    case True
    then have "odd (unat N div 2 ^ l)" by (simp add: bit_unat_div)
    from border_odd [OF this, of H E xs l] True IH show ?thesis
      by (simp only: upt d filter.simps list.map if_True)
  next
    case False
    then have "even (unat N div 2 ^ l)" by (simp add: bit_unat_div)
    from border_even [OF this, of H E xs l] False IH show ?thesis
      by (simp only: upt d filter.simps list.map if_False)
  qed
qed

lemma RangeNodes_border:
  "rev (map (subtreeHash H E xs) (RangeNodesForPrefix N)) = border H E xs 0 (unat N)"
proof -
  have "map (subtreeHash H E xs \<circ> (\<lambda>b. \<lparr>Level = of_nat b, Index = drop_bit b N - 1\<rparr>))
          (filter (bit N) [0..<64])
      = map (\<lambda>b. subtreeRoot H E xs b (unat N div 2 ^ b - 1)) (filter (bit N) [0..<64])"
  proof (rule map_cong [OF refl])
    fix b assume "b \<in> set (filter (bit N) [0..<64])"
    then have b: "b < 64" "bit N b"
      by (simp_all only: set_filter set_upt mem_Collect_eq atLeastLessThan_iff)
    have "unat (of_nat b :: 32 word) = b" using b(1) by (simp add: unat_of_nat)
    moreover have "bit (drop_bit b N) 0" using b(2) by (simp add: bit_drop_bit_eq)
    then have "drop_bit b N \<noteq> 0" by auto
    then have "unat (drop_bit b N - 1) = unat (drop_bit b N) - 1"
      by (rule unat_minus_one)
    then have "unat (drop_bit b N - 1) = unat N div 2 ^ b - 1"
      by (simp only: unat_drop_bit_div)
    ultimately show "(subtreeHash H E xs \<circ> (\<lambda>b. \<lparr>Level = of_nat b, Index = drop_bit b N - 1\<rparr>)) b
        = subtreeRoot H E xs b (unat N div 2 ^ b - 1)"
      by (simp add: subtreeHash_def)
  qed
  then show ?thesis
    using filter_border [of 0 H E xs N]
    by (simp only: RangeNodesForPrefix_def rev_map rev_filter rev_rev_ident map_map
        power_0 div_by_1 le0)
qed

lemma length_RangeNodes: "length (RangeNodesForPrefix N) = OnesCount64 N"
  by (simp only: RangeNodesForPrefix_def OnesCount64_def length_map rev_filter [symmetric]
      length_rev)

lemma NewRange_covers:
  assumes "NewRange N hs = Inr cr"
    and "hs = map (subtreeHash H E xs) (RangeNodesForPrefix N)"
    and "length xs = unat N"
  shows "covers H E cr xs"
  using assms RangeNodes_border [of H E xs N]
  by (auto simp: NewRange_def covers_def split: if_splits)

section \<open>Reasoning about runs\<close>


lemma thenDo_InrE:
  assumes "thenDo m f s = (Inr b, s')"
  obtains a s1 where "m s = (Inr a, s1)" "f a s1 = (Inr b, s')"
  using assms by (auto simp: thenDo_def split: prod.splits sum.splits)

lemma thenDo_Inr: "m s = (Inr a, s1) \<Longrightarrow> thenDo m f s = f a s1"
  by (simp add: thenDo_def)

lemma thenDo_Inl: "m s = (Inl e, s1) \<Longrightarrow> thenDo m f s = (Inl e, s1)"
  by (simp add: thenDo_def)

lemma return_eq [simp]: "return a s = (r, s') \<longleftrightarrow> r = Inr a \<and> s' = s"
  by (auto simp: return_def)

lemma throw_eq [simp]: "throw e s = (r, s') \<longleftrightarrow> r = Inl e \<and> s' = s"
  by (auto simp: throw_def)

lemma attempt_Inr [simp]: "attempt r w s = (Inr a, s') \<longleftrightarrow> r = Inr a \<and> s' = s"
  by (auto simp: attempt_def split: sum.splits)

lemma check_Inr [simp]: "check r w s = (Inr u, s') \<longleftrightarrow> r = None \<and> s' = s"
  by (auto simp: check_def split: option.splits)

lemma emit_eq [simp]: "emit ev s = (r, s') \<longleftrightarrow> r = Inr () \<and> s' = s\<lparr>trace := trace s @ [ev]\<rparr>"
  by (auto simp: emit_def)

lemma call_eq [simp]: "call ev x s = (r, s') \<longleftrightarrow> r = Inr x \<and> s' = s\<lparr>trace := trace s @ [ev]\<rparr>"
  by (auto simp: call_def)

lemma Now_eq [simp]:
  "Now env s = (r, s') \<longleftrightarrow> r = Inr (timeSource_Now env (ticks s)) \<and> s' = s\<lparr>ticks := Suc (ticks s)\<rparr>"
  by (auto simp: Now_def)

lemma observeSince_eq [simp]:
  "observeSince env m l s = (r, s') \<longleftrightarrow>
     r = Inr () \<and> s' = s\<lparr>ticks := Suc (ticks s), trace := trace s @ [Observe m l]\<rparr>"
  by (auto simp: observeSince_def thenDo_def Now_def emit_def)

lemma wrapErr_Inr [simp]: "wrapErr m w s = (Inr a, s') \<longleftrightarrow> m s = (Inr a, s')"
  by (auto simp: wrapErr_def split: prod.splits sum.splits)

lemma prepareLoop_Inr:
  "prepareLoop env at b label i leaves s = (Inr ls, s') \<Longrightarrow>
     ls = map (\<lambda>l. l\<lparr>IntegrateTimestamp := Some at\<rparr>) leaves
     \<and> (\<forall>j<length leaves. LeafIndex (leaves ! j) = b + of_nat (i + j) \<and> 0 \<le> sint (LeafIndex (leaves ! j)))
     \<and> ticks s' = ticks s
     \<and> (\<exists>es. trace s' = trace s @ es \<and> set es \<subseteq> {Observe seqMergeDelay label})"
proof (induction leaves arbitrary: i s ls s')
  case Nil
  then show ?case by simp
next
  case (Cons leaf rest)
  from Cons.prems have ok: "\<not> (sint (LeafIndex leaf) < 0 \<or> LeafIndex leaf \<noteq> b + of_nat i)"
    by (auto simp: Let_def split: if_splits)
  with Cons.prems obtain u s1 ls1 s2 where
    q: "(case QueueTimestamp leaf of
           None \<Rightarrow> return ()
         | Some q \<Rightarrow>
             if Seconds q \<noteq> 0
             then (case ptypes_Timestamp env q of
                     Inl e \<Rightarrow> throw InvalidQueueTimestamp
                   | Inr queueTS \<Rightarrow> emit (Observe seqMergeDelay label))
             else return ()) s = (Inr u, s1)"
    and r: "prepareLoop env at b label (Suc i) rest s1 = (Inr ls1, s2)"
    and e: "ls = leaf\<lparr>IntegrateTimestamp := Some at\<rparr> # ls1" "s' = s2"
    by (auto simp: Let_def elim!: thenDo_InrE)
  from q have s1: "ticks s1 = ticks s \<and> (\<exists>es. trace s1 = trace s @ es \<and> set es \<subseteq> {Observe seqMergeDelay label})"
    by (auto split: option.splits if_splits sum.splits)
  from Cons.IH [OF r] have IH:
    "ls1 = map (\<lambda>l. l\<lparr>IntegrateTimestamp := Some at\<rparr>) rest"
    "\<forall>j<length rest. LeafIndex (rest ! j) = b + of_nat (Suc i + j) \<and> 0 \<le> sint (LeafIndex (rest ! j))"
    "ticks s2 = ticks s1"
    "\<exists>es. trace s2 = trace s1 @ es \<and> set es \<subseteq> {Observe seqMergeDelay label}"
    by auto
  have idx: "\<forall>j<length (leaf # rest). LeafIndex ((leaf # rest) ! j) = b + of_nat (i + j)
       \<and> 0 \<le> sint (LeafIndex ((leaf # rest) ! j))"
  proof (intro allI impI)
    fix j assume "j < length (leaf # rest)"
    then show "LeafIndex ((leaf # rest) ! j) = b + of_nat (i + j) \<and> 0 \<le> sint (LeafIndex ((leaf # rest) ! j))"
      using ok IH(2) by (cases j) auto
  qed
  from s1 IH(4) obtain es1 es2 where
    "trace s1 = trace s @ es1" "set es1 \<subseteq> {Observe seqMergeDelay label}"
    "trace s2 = trace s1 @ es2" "set es2 \<subseteq> {Observe seqMergeDelay label}"
    by auto
  then have tr: "\<exists>es. trace s2 = trace s @ es \<and> set es \<subseteq> {Observe seqMergeDelay label}"
    by (intro exI [of _ "es1 @ es2"]) auto
  have m: "ls = map (\<lambda>l. l\<lparr>IntegrateTimestamp := Some at\<rparr>) (leaf # rest)"
    using e IH(1) by simp
  have t: "ticks s' = ticks s" using e IH(3) s1 by simp
  from m idx t tr e(2) show ?case by blast
qed


lemma loadRoot_Inr:
  assumes "loadRoot env tree s = (Inr cur, s')"
  shows "\<exists>sth. tx_LatestSignedLogRoot env = Inr sth
           \<and> root_UnmarshalBinary env (LogRoot sth) = Inr cur"
    and "RootHash cur \<noteq> None"
    and "ticks s' = ticks s + 2"
    and "trace s' = trace s @ [LatestSignedLogRoot, Observe seqGetRootLatency (TreeId tree),
           SetGauge seqTreeSize (TreeId tree)]"
  using assms by (auto simp: loadRoot_def elim!: thenDo_InrE split: if_splits)

lemma assignIndices_Inr:
  "assignIndices ts i dq = Inr ls \<Longrightarrow>
     length ls = length dq
     \<and> (\<forall>j<length dq. ls ! j = (dq ! j)\<lparr>LeafIndex := ts + of_nat (i + j)\<rparr>
            \<and> 0 \<le> sint (ts + of_nat (i + j)))"
proof (induction dq arbitrary: i ls)
  case Nil
  then show ?case by simp
next
  case (Cons leaf rest)
  from Cons.prems obtain ls1 where
    ok: "\<not> sint (ts + of_nat i) < 0"
    and r: "assignIndices ts (Suc i) rest = Inr ls1"
    and e: "ls = leaf\<lparr>LeafIndex := ts + of_nat i\<rparr> # ls1"
    by (auto simp: Let_def split: if_splits sum.splits)
  from Cons.IH [OF r] have IH: "length ls1 = length rest"
    "\<forall>j<length rest. ls1 ! j = (rest ! j)\<lparr>LeafIndex := ts + of_nat (Suc i + j)\<rparr>
            \<and> 0 \<le> sint (ts + of_nat (Suc i + j))"
    by auto
  have "\<forall>j<length (leaf # rest). ls ! j = ((leaf # rest) ! j)\<lparr>LeafIndex := ts + of_nat (i + j)\<rparr>
            \<and> 0 \<le> sint (ts + of_nat (i + j))"
  proof (intro allI impI)
    fix j assume "j < length (leaf # rest)"
    then show "ls ! j = ((leaf # rest) ! j)\<lparr>LeafIndex := ts + of_nat (i + j)\<rparr>
            \<and> 0 \<le> sint (ts + of_nat (i + j))"
      using ok IH(2) e by (cases j) auto
  qed
  moreover have "length ls = length (leaf # rest)" using e IH(1) by simp
  ultimately show ?case by blast
qed

definition fetchEvents :: "int64 \<Rightarrow> int \<Rightarrow> time \<Rightarrow> event list" where
  "fetchEvents label limit cutoff = [DequeueLeaves limit cutoff, Observe seqDequeueLatency label]"

lemma fetch_Inr:
  assumes "fetch env st treeSize label limit cutoff s = (Inr ls, s')"
  shows "\<exists>dq. tx_DequeueLeaves env limit cutoff = Inr dq
           \<and> (case st of logSequencingTask \<Rightarrow> assignIndices treeSize 0 dq = Inr ls
               | preorderedLogSequencingTask \<Rightarrow> ls = dq)"
    and "ticks s' = ticks s + 2"
    and "trace s' = trace s @ fetchEvents label limit cutoff"
  using assms by (cases st; auto simp: fetchEvents_def elim!: thenDo_InrE)+

definition updateEvents :: "sequencingTask \<Rightarrow> int64 \<Rightarrow> LogLeaf list \<Rightarrow> event list" where
  "updateEvents st label leaves =
     (case st of
        logSequencingTask \<Rightarrow> [UpdateSequencedLeaves leaves, Observe seqUpdateLeavesLatency label]
      | preorderedLogSequencingTask \<Rightarrow> [])"

lemma update_Inr:
  assumes "update env st label leaves s = (Inr u, s')"
  shows "trace s' = trace s @ updateEvents st label leaves"
  using assms by (cases st; auto simp: updateEvents_def elim!: thenDo_InrE)

definition initEvents :: "LogRootV1 \<Rightarrow> event list" where
  "initEvents cur =
     (if TreeSize cur = 0 then []
      else case storageIDs (RangeNodesForPrefix (TreeSize cur)) of
             Inl e \<Rightarrow> []
           | Inr ids \<Rightarrow> [GetMerkleNodes (Revision cur) ids])"

lemma init_Inr:
  assumes "initCompactRangeFromStorage env cur s = (Inr cr, s')"
  shows "ticks s' = ticks s"
    and "trace s' = trace s @ initEvents cur"
    and "TreeSize cur = 0 \<Longrightarrow> cr = NewEmptyRange 0"
    and "TreeSize cur \<noteq> 0 \<Longrightarrow>
           \<exists>ids nodes h. storageIDs (RangeNodesForPrefix (TreeSize cur)) = Inr ids
             \<and> tx_GetMerkleNodes env (Revision cur) ids = Inr nodes
             \<and> length nodes = length ids
             \<and> firstMismatch 0 nodes ids = None
             \<and> NewRange (TreeSize cur) (map Hash nodes) = Inr cr
             \<and> GetRootHash (hasher_HashChildren env) cr None () = Inr (h, ())
             \<and> bytes_Equal h (RootHash cur)"
  using assms
  by (auto simp: initCompactRangeFromStorage_def initEvents_def elim!: thenDo_InrE
      split: if_splits option.splits)

lemma prepareLeaves_Inr:
  assumes "prepareLeaves env fetched b label s = (Inr leaves, s')"
  shows "\<exists>at. leaves = map (\<lambda>l. l\<lparr>IntegrateTimestamp := Some at\<rparr>) fetched"
    and "\<forall>j<length fetched. LeafIndex (fetched ! j) = b + of_nat j \<and> 0 \<le> sint (LeafIndex (fetched ! j))"
    and "\<exists>es. trace s' = trace s @ es \<and> set es \<subseteq> {Observe seqMergeDelay label}"
proof -
  from assms obtain at s1 where
    p: "prepareLoop env at b label 0 fetched s1 = (Inr leaves, s')" and s1: "trace s1 = trace s"
    by (auto simp: prepareLeaves_def elim!: thenDo_InrE)
  from prepareLoop_Inr [OF p] s1
  show "\<exists>at. leaves = map (\<lambda>l. l\<lparr>IntegrateTimestamp := Some at\<rparr>) fetched"
    and "\<forall>j<length fetched. LeafIndex (fetched ! j) = b + of_nat j \<and> 0 \<le> sint (LeafIndex (fetched ! j))"
    and "\<exists>es. trace s' = trace s @ es \<and> set es \<subseteq> {Observe seqMergeDelay label}"
    by auto
qed

text \<open>
  \<open>quiet P m\<close>: whatever \<open>m\<close> returns, it only appends calls that satisfy \<open>P\<close> to the
  trace.
\<close>


definition quiet :: "(event \<Rightarrow> bool) \<Rightarrow> 'a prog \<Rightarrow> bool" where
  "quiet P m \<longleftrightarrow> (\<forall>s r s'. m s = (r, s') \<longrightarrow> (\<exists>es. trace s' = trace s @ es \<and> list_all P es))"

lemma quietD:
  assumes "quiet P m" and "m s = (r, s')"
  obtains es where "trace s' = trace s @ es" "list_all P es"
  using assms unfolding quiet_def by blast

lemma quiet_mono: "quiet P m \<Longrightarrow> (\<And>e. P e \<Longrightarrow> Q e) \<Longrightarrow> quiet Q m"
  unfolding quiet_def list_all_iff by blast

lemma quiet_return [intro!]: "quiet P (return a)"
  by (simp add: quiet_def)

lemma quiet_throw [intro!]: "quiet P (throw e)"
  by (simp add: quiet_def)

lemma quiet_attempt [intro!]: "quiet P (attempt r w)"
  by (auto simp: quiet_def attempt_def split: sum.splits)

lemma quiet_check [intro!]: "quiet P (check r w)"
  by (auto simp: quiet_def check_def split: option.splits)

lemma quiet_emit [intro!]: "P ev \<Longrightarrow> quiet P (emit ev)"
  by (simp add: quiet_def)

lemma quiet_call [intro!]: "P ev \<Longrightarrow> quiet P (call ev x)"
  by (simp add: quiet_def)

lemma quiet_Now [intro!]: "quiet P (Now env)"
  by (simp add: quiet_def)

lemma quiet_observeSince [intro!]: "P (Observe m l) \<Longrightarrow> quiet P (observeSince env m l)"
  by (simp add: quiet_def)

lemma quiet_thenDo [intro!]:
  assumes "quiet P m" and "\<And>a. quiet P (f a)"
  shows "quiet P (thenDo m f)"
  unfolding quiet_def
proof (intro allI impI)
  fix s r s' assume run: "thenDo m f s = (r, s')"
  obtain r1 s1 where m: "m s = (r1, s1)" by (cases "m s")
  from quietD [OF assms(1) m] obtain es1 where e1: "trace s1 = trace s @ es1" "list_all P es1" .
  show "\<exists>es. trace s' = trace s @ es \<and> list_all P es"
  proof (cases r1)
    case (Inl e)
    with run m have "s' = s1" by (simp add: thenDo_def)
    with e1 show ?thesis by blast
  next
    case (Inr a)
    with run m have "f a s1 = (r, s')" by (simp add: thenDo_def)
    from quietD [OF assms(2) this] obtain es2 where "trace s' = trace s1 @ es2" "list_all P es2" .
    with e1 have "trace s' = trace s @ (es1 @ es2) \<and> list_all P (es1 @ es2)" by simp
    then show ?thesis by blast
  qed
qed

lemma quiet_wrapErr [intro!]: "quiet P m \<Longrightarrow> quiet P (wrapErr m w)"
  unfolding quiet_def wrapErr_def by (auto split: prod.splits sum.splits)

lemma quiet_deferred [intro!]:
  assumes "quiet P m" and "quiet P d"
  shows "quiet P (deferred m d)"
  unfolding quiet_def
proof (intro allI impI)
  fix s r s' assume run: "deferred m d s = (r, s')"
  obtain r1 s1 where m: "m s = (r1, s1)" by (cases "m s")
  obtain r2 s2 where d: "d s1 = (r2, s2)" by (cases "d s1")
  from run m d have s': "s' = s2" by (simp add: deferred_def)
  from quietD [OF assms(1) m] obtain es1 where e1: "trace s1 = trace s @ es1" "list_all P es1" .
  from quietD [OF assms(2) d] obtain es2 where "trace s2 = trace s1 @ es2" "list_all P es2" .
  with e1 s' have "trace s' = trace s @ (es1 @ es2) \<and> list_all P (es1 @ es2)" by simp
  then show "\<exists>es. trace s' = trace s @ es \<and> list_all P es" by blast
qed

lemma quiet_if [intro!]:
  "(c \<Longrightarrow> quiet P a) \<Longrightarrow> (\<not> c \<Longrightarrow> quiet P b) \<Longrightarrow> quiet P (if c then a else b)"
  by simp

lemma quiet_loadRoot:
  assumes "P LatestSignedLogRoot" "\<And>m l. P (Observe m l)" "\<And>m l. P (SetGauge m l)"
  shows "quiet P (loadRoot env tree)"
  unfolding loadRoot_def using assms by (intro quiet_thenDo quiet_if) auto

lemma quiet_fetch:
  assumes "\<And>l c. P (DequeueLeaves l c)" "\<And>m l. P (Observe m l)"
  shows "quiet P (fetch env st treeSize label limit cutoff)"
  using assms by (cases st) auto

lemma quiet_nothingToIntegrate:
  "quiet P (nothingToIntegrate env cur maxdur fetched)"
  unfolding nothingToIntegrate_def by (auto simp: Let_def)

lemma quiet_init:
  assumes "\<And>r ids. P (GetMerkleNodes r ids)"
  shows "quiet P (initCompactRangeFromStorage env cur)"
  unfolding initCompactRangeFromStorage_def using assms
  by (auto split: option.splits)

lemma quiet_prepareLoop:
  assumes "\<And>m l. P (Observe m l)"
  shows "quiet P (prepareLoop env at b label i leaves)"
  using assms
  by (induction leaves arbitrary: i) (auto simp: Let_def split: option.splits sum.splits)

lemma quiet_prepareLeaves:
  assumes "\<And>m l. P (Observe m l)"
  shows "quiet P (prepareLeaves env leaves b label)"
  unfolding prepareLeaves_def using assms by (auto intro: quiet_prepareLoop)

lemma quiet_update:
  assumes "\<And>ls. P (UpdateSequencedLeaves ls)" "\<And>m l. P (Observe m l)"
  shows "quiet P (update env st label leaves)"
  using assms by (cases st) auto

lemma quiet_integrate: "quiet (\<lambda>_. True) (integrate env tree cur st fetched)"
  unfolding integrate_def
  by (auto simp: Let_def intro!: quiet_init quiet_prepareLeaves quiet_update split: prod.splits)

section \<open>Successful runs\<close>

text \<open>
  What a run that returns without error has done: the answers it got from the
  collaborators, the checks that passed and the calls it made, in order.
\<close>

definition initialised :: "env \<Rightarrow> LogRootV1 \<Rightarrow> Range \<Rightarrow> bool" where
  "initialised env cur cr \<longleftrightarrow>
     (if TreeSize cur = 0 then cr = NewEmptyRange 0
      else \<exists>ids nodes h.
             storageIDs (RangeNodesForPrefix (TreeSize cur)) = Inr ids
             \<and> tx_GetMerkleNodes env (Revision cur) ids = Inr nodes
             \<and> length nodes = length ids
             \<and> firstMismatch 0 nodes ids = None
             \<and> NewRange (TreeSize cur) (map Hash nodes) = Inr cr
             \<and> GetRootHash (hasher_HashChildren env) cr None () = Inr (h, ())
             \<and> bytes_Equal h (RootHash cur))"

lemma init_initialised:
  "initCompactRangeFromStorage env cur s = (Inr cr, s') \<Longrightarrow> initialised env cur cr"
  using init_Inr(3,4) [of env cur s cr s'] by (auto simp: initialised_def)

definition finalEvents :: "int64 \<Rightarrow> Node list \<Rightarrow> LogRootV1 \<Rightarrow> SignedLogRoot \<Rightarrow> event list" where
  "finalEvents label nodes new slr =
     [SetMerkleNodes nodes, Observe seqSetNodesLatency label, SetGauge seqTreeSize label,
      SetGauge seqTimestamp label, SignLogRoot new, StoreSignedLogRoot slr,
      Observe seqStoreRootLatency label]"

definition integrated :: "env \<Rightarrow> Tree \<Rightarrow> LogRootV1 \<Rightarrow> sequencingTask \<Rightarrow> LogLeaf list \<Rightarrow>
    LogRootV1 \<Rightarrow> SignedLogRoot \<Rightarrow> event list \<Rightarrow> bool" where
  "integrated env tree cur st fetched new slr es \<longleftrightarrow>
     (\<exists>cr leaves cr' nodeMap newRoot nodes at tnow es_prep.
        initialised env cur cr
        \<and> tx_WriteRevision env = Inr (Revision cur + 1)
        \<and> leaves = map (\<lambda>l. l\<lparr>IntegrateTimestamp := Some at\<rparr>) fetched
        \<and> (\<forall>j<length fetched. LeafIndex (fetched ! j) = End cr + of_nat j
               \<and> 0 \<le> sint (LeafIndex (fetched ! j)))
        \<and> updateCompactRange env cr leaves = Inr (cr', nodeMap, newRoot)
        \<and> buildNodesFromNodeMap nodeMap (Revision cur + 1) = Inr nodes
        \<and> tx_SetMerkleNodes env nodes = None
        \<and> new = \<lparr>TreeSize = End cr',
                  RootHash = (if End cr' = 0 then hasher_EmptyRoot env else newRoot),
                  TimestampNanos = UnixNano tnow,
                  Revision = Revision cur + 1,
                  Metadata = None\<rparr>
        \<and> TimestampNanos cur < TimestampNanos new
        \<and> signer_SignLogRoot env new = Inr slr
        \<and> tx_StoreSignedLogRoot env slr = None
        \<and> set es_prep \<subseteq> {Observe seqMergeDelay (TreeId tree)}
        \<and> es = initEvents cur @ [Observe seqInitTreeLatency (TreeId tree), WriteRevision]
               @ es_prep @ [Observe seqWriteTreeLatency (TreeId tree)]
               @ updateEvents st (TreeId tree) leaves
               @ finalEvents (TreeId tree) nodes new slr)"

lemma integrate_Inr:
  assumes "integrate env tree cur st fetched s = (Inr res, s')"
  shows "\<exists>new slr es. res = (int (length fetched), Some new, Some slr)
           \<and> trace s' = trace s @ es \<and> integrated env tree cur st fetched new slr es"
proof -
  from assms obtain cr s1 leaves s2 cr' nodeMap newRoot s3 nodes tnow new slr where
    i: "initCompactRangeFromStorage env cur (s\<lparr>ticks := Suc (ticks s)\<rparr>) = (Inr cr, s1)"
    and w: "tx_WriteRevision env = Inr (Revision cur + 1)"
    and p: "prepareLeaves env fetched (End cr) (TreeId tree)
              (s1\<lparr>ticks := Suc (Suc (ticks s1)),
                  trace := trace s1 @ [Observe seqInitTreeLatency (TreeId tree), WriteRevision]\<rparr>)
            = (Inr leaves, s2)"
    and u: "updateCompactRange env cr leaves = Inr (cr', nodeMap, newRoot)"
    and up: "update env st (TreeId tree) leaves
               (s2\<lparr>ticks := Suc (ticks s2),
                   trace := trace s2 @ [Observe seqWriteTreeLatency (TreeId tree)]\<rparr>)
             = (Inr (), s3)"
    and b: "buildNodesFromNodeMap nodeMap (Revision cur + 1) = Inr nodes"
           "tx_SetMerkleNodes env nodes = None"
    and new: "new = \<lparr>TreeSize = End cr',
                  RootHash = (if End cr' = 0 then hasher_EmptyRoot env else newRoot),
                  TimestampNanos = UnixNano tnow,
                  Revision = Revision cur + 1,
                  Metadata = None\<rparr>"
    and ts: "\<not> UnixNano tnow \<le> TimestampNanos cur"
    and sg: "signer_SignLogRoot env new = Inr slr" "tx_StoreSignedLogRoot env slr = None"
    and res: "res = (int (length fetched), Some new, Some slr)"
    and tr: "trace s' = trace s3 @ finalEvents (TreeId tree) nodes new slr"
    unfolding integrate_def finalEvents_def
    by (auto elim!: thenDo_InrE split: if_splits prod.splits simp: Let_def)
  note i1 = init_Inr(2) [OF i] and i2 = init_initialised [OF i]
  from prepareLeaves_Inr(1) [OF p] obtain at where
    l: "leaves = map (\<lambda>l. l\<lparr>IntegrateTimestamp := Some at\<rparr>) fetched"
    by blast
  note idx = prepareLeaves_Inr(2) [OF p]
  from prepareLeaves_Inr(3) [OF p] obtain es_prep where
    t2: "trace s2 = trace s1 @ [Observe seqInitTreeLatency (TreeId tree), WriteRevision] @ es_prep"
    and ep: "set es_prep \<subseteq> {Observe seqMergeDelay (TreeId tree)}"
    by auto
  from update_Inr [OF up]
  have t3: "trace s3 = trace s2 @ [Observe seqWriteTreeLatency (TreeId tree)]
              @ updateEvents st (TreeId tree) leaves"
    by simp
  have "trace s' = trace s @ (initEvents cur @ [Observe seqInitTreeLatency (TreeId tree), WriteRevision]
               @ es_prep @ [Observe seqWriteTreeLatency (TreeId tree)]
               @ updateEvents st (TreeId tree) leaves
               @ finalEvents (TreeId tree) nodes new slr)"
    using i1 t2 t3 tr by simp
  moreover have "TimestampNanos cur < TimestampNanos new" using ts new by simp
  ultimately show ?thesis
    unfolding integrated_def using i2 w l idx u b new sg res ep by blast
qed


definition loadEvents :: "int64 \<Rightarrow> event list" where
  "loadEvents label =
     [LatestSignedLogRoot, Observe seqGetRootLatency label, SetGauge seqTreeSize label]"

definition replenishEvents :: "env \<Rightarrow> int \<Rightarrow> int64 \<Rightarrow> event list" where
  "replenishEvents env numLeaves treeID =
     (if numLeaves > 0
      then (let tokens = replenishTokens env numLeaves;
                specs = [\<lparr>Group = Tree, Kind = Read, SpecTreeID = treeID\<rparr>,
                         \<lparr>Group = Tree, Kind = Write, SpecTreeID = treeID\<rparr>,
                         \<lparr>Group = Global, Kind = Read, SpecTreeID = 0\<rparr>,
                         \<lparr>Group = Global, Kind = Write, SpecTreeID = 0\<rparr>]
            in [PutTokens tokens specs,
                IncReplenished tokens specs (qm_PutTokens env tokens specs = None)])
      else [])"

definition skipBatch :: "LogRootV1 \<Rightarrow> Duration \<Rightarrow> time \<Rightarrow> LogLeaf list \<Rightarrow> bool" where
  "skipBatch cur maxRootDurationInterval now fetched \<longleftrightarrow>
     fetched = [] \<and> (maxRootDurationInterval = 0
       \<or> sint (UnixNano now - TimestampNanos cur) < sint maxRootDurationInterval)"

lemma replenishQuota_eq:
  "replenishQuota env n t s = (r, s') \<Longrightarrow>
     r = Inr () \<and> trace s' = trace s @ replenishEvents env n t"
  by (auto simp: replenishQuota_def replenishEvents_def Let_def thenDo_def call_def emit_def
      split: if_splits)

lemma nothingToIntegrate_eq:
  "nothingToIntegrate env cur maxdur fetched s = (r, s') \<Longrightarrow>
     r = Inr (skipBatch cur maxdur (timeSource_Now env (ticks s)) fetched) \<and> trace s' = trace s"
  by (auto simp: nothingToIntegrate_def skipBatch_def Let_def thenDo_def Now_def
      split: if_splits)

lemma IntegrateBatch_ok:
  assumes "IntegrateBatch env tree limit gw maxdur s0 = ((n, None), s1)"
  shows "\<exists>sth cur st dq fetched es.
      storage_begin env = None \<and> storage_commit env = None
      \<and> tx_LatestSignedLogRoot env = Inr sth
      \<and> root_UnmarshalBinary env (LogRoot sth) = Inr cur
      \<and> RootHash cur \<noteq> None
      \<and> selectTask tree = Inr st
      \<and> tx_DequeueLeaves env limit (timeSource_Now env (ticks s0) + sint (- gw)) = Inr dq
      \<and> (case st of logSequencingTask \<Rightarrow> assignIndices (TreeSize cur) 0 dq = Inr fetched
          | preorderedLogSequencingTask \<Rightarrow> fetched = dq)
      \<and> n = int (length fetched)
      \<and> trace s1 = trace s0 @ BeginTx # loadEvents (TreeId tree)
           @ fetchEvents (TreeId tree) limit (timeSource_Now env (ticks s0) + sint (- gw))
           @ es @ [Observe seqLatency (TreeId tree), Inc seqBatches (TreeId tree), Commit]
           @ replenishEvents env n (TreeId tree) @ [Add seqCounter n (TreeId tree)]
      \<and> (if skipBatch cur maxdur (timeSource_Now env (ticks s0 + 5)) fetched then es = []
          else \<exists>new slr. integrated env tree cur st fetched new slr es)"
proof -
  define start where "start = timeSource_Now env (ticks s0)"
  define cutoff where "cutoff = start + sint (- gw)"
  define sB where "sB = s0\<lparr>ticks := Suc (ticks s0), trace := trace s0 @ [BeginTx]\<rparr>"
  from assms obtain lr sl sm r2 where
    rw: "thenDo (Now env) (\<lambda>start. ReadWriteTransaction env
           (txBody env tree limit gw maxdur start)) s0 = (Inr (n, lr, sl), sm)"
    and post: "thenDo (replenishQuota env n (TreeId tree))
                 (\<lambda>_. emit (Add seqCounter n (TreeId tree))) sm = (r2, s1)"
    by (auto simp: IntegrateBatch_def split: prod.splits sum.splits)
  from rw obtain sC where
    bg: "storage_begin env = None" and cm: "storage_commit env = None"
    and body: "txBody env tree limit gw maxdur start sB = (Inr (n, lr, sl), sC)"
    and sm: "trace sm = trace sC @ [Commit]"
    by (auto simp: ReadWriteTransaction_def start_def sB_def elim!: thenDo_InrE
        split: prod.splits sum.splits)
  from body obtain sD where
    core: "thenDo (loadRoot env tree) (\<lambda>currentRoot.
        thenDo (attempt (selectTask tree) id) (\<lambda>st.
        thenDo (wrapErr (fetch env st (TreeSize currentRoot) (TreeId tree) limit
                           (start + sint (- gw)))
                  (LoadBatchFailed (TreeId tree))) (\<lambda>sequencedLeaves.
        thenDo (nothingToIntegrate env currentRoot maxdur sequencedLeaves)
          (\<lambda>nothing.
        if nothing then return (int (length sequencedLeaves), None, None)
        else integrate env tree currentRoot st sequencedLeaves)))) sB = (Inr (n, lr, sl), sD)"
    and sC: "trace sC = trace sD @ [Observe seqLatency (TreeId tree), Inc seqBatches (TreeId tree)]"
    by (auto simp: txBody_def deferred_def thenDo_def emit_def Now_def observeSince_def
        split: prod.splits sum.splits)
  from core obtain cur s2 st fetched s3 nothing s4 where
    ld: "loadRoot env tree sB = (Inr cur, s2)"
    and st: "selectTask tree = Inr st"
    and ft: "fetch env st (TreeSize cur) (TreeId tree) limit cutoff s2 = (Inr fetched, s3)"
    and nt: "nothingToIntegrate env cur maxdur fetched s3 = (Inr nothing, s4)"
    and fin: "(if nothing then return (int (length fetched), None, None)
               else integrate env tree cur st fetched) s4 = (Inr (n, lr, sl), sD)"
    by (auto simp: cutoff_def elim!: thenDo_InrE)
  from loadRoot_Inr [OF ld] obtain sth where
    l1: "tx_LatestSignedLogRoot env = Inr sth" "root_UnmarshalBinary env (LogRoot sth) = Inr cur"
    and l2: "RootHash cur \<noteq> None"
    and l3: "ticks s2 = ticks sB + 2"
    and l4: "trace s2 = trace sB @ loadEvents (TreeId tree)"
    by (auto simp: loadEvents_def)
  from fetch_Inr [OF ft] obtain dq where
    f1: "tx_DequeueLeaves env limit cutoff = Inr dq"
        "(case st of logSequencingTask \<Rightarrow> assignIndices (TreeSize cur) 0 dq = Inr fetched
          | preorderedLogSequencingTask \<Rightarrow> fetched = dq)"
    and f2: "ticks s3 = ticks s2 + 2"
    and f3: "trace s3 = trace s2 @ fetchEvents (TreeId tree) limit cutoff"
    by blast
  from nothingToIntegrate_eq [OF nt]
  have n1: "nothing = skipBatch cur maxdur (timeSource_Now env (ticks s3)) fetched"
    and n2: "trace s4 = trace s3"
    by simp_all
  have tk: "ticks s3 = ticks s0 + 5" using l3 f2 by (simp add: sB_def)
  from post have p: "trace s1 = trace sm @ replenishEvents env n (TreeId tree)
      @ [Add seqCounter n (TreeId tree)]"
    by (auto simp: thenDo_def emit_def split: prod.splits sum.splits dest: replenishQuota_eq)
  have "\<exists>es. n = int (length fetched) \<and> trace sD = trace s4 @ es
      \<and> (if skipBatch cur maxdur (timeSource_Now env (ticks s0 + 5)) fetched then es = []
          else \<exists>new slr. integrated env tree cur st fetched new slr es)"
  proof (cases nothing)
    case True
    with fin n1 tk show ?thesis by auto
  next
    case False
    with fin have "integrate env tree cur st fetched s4 = (Inr (n, lr, sl), sD)" by simp
    from integrate_Inr [OF this] False n1 tk show ?thesis by auto
  qed
  then obtain es where
    e: "n = int (length fetched)" "trace sD = trace s4 @ es"
       "if skipBatch cur maxdur (timeSource_Now env (ticks s0 + 5)) fetched then es = []
        else \<exists>new slr. integrated env tree cur st fetched new slr es"
    by blast
  have "trace s1 = trace s0 @ BeginTx # loadEvents (TreeId tree)
           @ fetchEvents (TreeId tree) limit cutoff
           @ es @ [Observe seqLatency (TreeId tree), Inc seqBatches (TreeId tree), Commit]
           @ replenishEvents env n (TreeId tree) @ [Add seqCounter n (TreeId tree)]"
    using p sm sC e(2) n2 f3 l4 by (simp add: sB_def)
  with bg cm l1 l2 st f1 e(1,3) show ?thesis
    unfolding cutoff_def start_def by blast
qed

text \<open>The calls made between two states of a run.\<close>

definition calls :: "state \<Rightarrow> state \<Rightarrow> event list" where
  "calls s s' = drop (length (trace s)) (trace s')"

lemma calls_append: "trace s1 = trace s0 @ es \<Longrightarrow> calls s0 s1 = es"
  by (simp add: calls_def)

lemma storageIDs_length: "storageIDs ids = Inr sids \<Longrightarrow> length sids = length ids"
  by (induction ids arbitrary: sids) (auto split: sum.splits)

lemma initialised_End: "initialised env cur cr \<Longrightarrow> End cr = TreeSize cur"
  by (auto simp: initialised_def End_def NewEmptyRange_def NewRange_def split: if_splits)

lemma initialised_covers:
  assumes "initialised env old cr"
    and "length oldLeaves = unat (TreeSize old)"
    and "\<And>ids nodes i. storageIDs (RangeNodesForPrefix (TreeSize old)) = Inr ids \<Longrightarrow>
           tx_GetMerkleNodes env (Revision old) ids = Inr nodes \<Longrightarrow>
           i < length nodes \<Longrightarrow> i < length (RangeNodesForPrefix (TreeSize old)) \<Longrightarrow>
           Hash (nodes ! i) = subtreeHash (hasher_HashChildren env) (hasher_EmptyRoot env) oldLeaves
             (RangeNodesForPrefix (TreeSize old) ! i)"
  shows "covers (hasher_HashChildren env) (hasher_EmptyRoot env) cr oldLeaves"
proof (cases "TreeSize old = 0")
  case True
  with assms(1,2) show ?thesis by (simp add: initialised_def covers_empty)
next
  case False
  with assms(1) obtain ids nodes where
    i: "storageIDs (RangeNodesForPrefix (TreeSize old)) = Inr ids"
    and g: "tx_GetMerkleNodes env (Revision old) ids = Inr nodes"
    and l: "length nodes = length ids"
    and r: "NewRange (TreeSize old) (map Hash nodes) = Inr cr"
    by (auto simp: initialised_def)
  from storageIDs_length [OF i] l
  have len: "length nodes = length (RangeNodesForPrefix (TreeSize old))" by simp
  have "map Hash nodes = map (subtreeHash (hasher_HashChildren env) (hasher_EmptyRoot env) oldLeaves)
          (RangeNodesForPrefix (TreeSize old))"
  proof (rule nth_equalityI)
    show "length (map Hash nodes) = length (map (subtreeHash (hasher_HashChildren env)
        (hasher_EmptyRoot env) oldLeaves) (RangeNodesForPrefix (TreeSize old)))"
      using len by simp
  next
    fix i assume "i < length (map Hash nodes)"
    then have "i < length nodes" "i < length (RangeNodesForPrefix (TreeSize old))"
      using len by simp_all
    with assms(3) [OF i g] show "map Hash nodes ! i = map (subtreeHash (hasher_HashChildren env)
        (hasher_EmptyRoot env) oldLeaves) (RangeNodesForPrefix (TreeSize old)) ! i"
      by simp
  qed
  from NewRange_covers [OF r this assms(2)] show ?thesis .
qed

lemma updateCompactRange_root:
  assumes "updateCompactRange env cr leaves = Inr (cr', nodeMap, newRoot)"
    and "covers (hasher_HashChildren env) E cr xs"
  shows "unat (End cr') = length (xs @ map MerkleLeafHash leaves)"
    and "xs @ map MerkleLeafHash leaves \<noteq> [] \<Longrightarrow>
           newRoot = merkleRoot (hasher_HashChildren env) E (xs @ map MerkleLeafHash leaves)"
proof -
  from assms(1) obtain nm where
    a: "appendLeaves env cr leaves [] = Inr (cr', nm)"
    and g: "GetRootHash (hasher_HashChildren env) cr' (Some store) nm = Inr (newRoot, nodeMap)"
    by (auto simp: updateCompactRange_def split: sum.splits)
  note c = appendLeaves_covers [OF a assms(2)]
  then show "unat (End cr') = length (xs @ map MerkleLeafHash leaves)"
    by (simp add: covers_def End_def)
  assume "xs @ map MerkleLeafHash leaves \<noteq> []"
  from GetRootHash_covers [OF c this, of "Some store" nm] g
  show "newRoot = merkleRoot (hasher_HashChildren env) E (xs @ map MerkleLeafHash leaves)"
    by auto
qed

lemma fetched_hashes:
  assumes "case st of logSequencingTask \<Rightarrow> assignIndices ts 0 dq = Inr fetched
           | preorderedLogSequencingTask \<Rightarrow> fetched = dq"
  shows "map MerkleLeafHash fetched = map MerkleLeafHash dq" and "length fetched = length dq"
proof -
  have "map MerkleLeafHash fetched = map MerkleLeafHash dq \<and> length fetched = length dq"
  proof (cases st)
    case logSequencingTask
    with assms have a: "assignIndices ts 0 dq = Inr fetched" by simp
    from assignIndices_Inr [OF a] have "length fetched = length dq"
      and "\<forall>j<length dq. MerkleLeafHash (fetched ! j) = MerkleLeafHash (dq ! j)"
      by auto
    then show ?thesis by (auto intro: nth_equalityI)
  next
    case preorderedLogSequencingTask
    with assms show ?thesis by simp
  qed
  then show "map MerkleLeafHash fetched = map MerkleLeafHash dq" and "length fetched = length dq"
    by simp_all
qed

lemma integrated_events:
  assumes "integrated env tree cur st fetched new slr es"
  shows "SignLogRoot x \<in> set es \<longleftrightarrow> x = new"
    and "StoreSignedLogRoot y \<in> set es \<longleftrightarrow> y = slr"
  using assms
  by (auto simp: integrated_def initEvents_def updateEvents_def finalEvents_def
      split: if_splits sum.splits sequencingTask.splits)

lemma other_events:
  "SignLogRoot x \<notin> set (loadEvents l)" "SignLogRoot x \<notin> set (fetchEvents l limit c)"
  "SignLogRoot x \<notin> set (replenishEvents env n t)"
  "StoreSignedLogRoot y \<notin> set (loadEvents l)" "StoreSignedLogRoot y \<notin> set (fetchEvents l limit c)"
  "StoreSignedLogRoot y \<notin> set (replenishEvents env n t)"
  by (simp_all add: loadEvents_def fetchEvents_def replenishEvents_def Let_def)

lemma IntegrateBatch_signed:
  assumes run: "IntegrateBatch env tree limit gw maxdur s0 = ((n, None), s1)"
    and signed: "SignLogRoot new \<in> set (calls s0 s1)"
    and old: "tx_LatestSignedLogRoot env = Inr sth" "root_UnmarshalBinary env (LogRoot sth) = Inr old"
    and batch: "tx_DequeueLeaves env limit (timeSource_Now env (ticks s0) + sint (- gw)) = Inr dq"
  obtains st fetched slr es where
    "integrated env tree old st fetched new slr es"
    "map MerkleLeafHash fetched = map MerkleLeafHash dq"
    "length fetched = length dq"
    "n = int (length dq)"
    "StoreSignedLogRoot slr \<in> set (calls s0 s1)"
    "\<not> skipBatch old maxdur (timeSource_Now env (ticks s0 + 5)) fetched"
proof -
  from IntegrateBatch_ok [OF run] old batch obtain st fetched es where
    f: "case st of logSequencingTask \<Rightarrow> assignIndices (TreeSize old) 0 dq = Inr fetched
          | preorderedLogSequencingTask \<Rightarrow> fetched = dq"
    and n: "n = int (length fetched)"
    and tr: "trace s1 = trace s0 @ BeginTx # loadEvents (TreeId tree)
           @ fetchEvents (TreeId tree) limit (timeSource_Now env (ticks s0) + sint (- gw))
           @ es @ [Observe seqLatency (TreeId tree), Inc seqBatches (TreeId tree), Commit]
           @ replenishEvents env n (TreeId tree) @ [Add seqCounter n (TreeId tree)]"
    and c: "if skipBatch old maxdur (timeSource_Now env (ticks s0 + 5)) fetched then es = []
          else \<exists>new slr. integrated env tree old st fetched new slr es"
    by auto
  note cl = calls_append [OF tr]
  from signed have in_es: "SignLogRoot new \<in> set es"
    by (simp add: cl other_events)
  with c obtain new' slr where
    ns: "\<not> skipBatch old maxdur (timeSource_Now env (ticks s0 + 5)) fetched"
    and i: "integrated env tree old st fetched new' slr es"
    by (auto split: if_splits)
  from integrated_events(1) [OF i] in_es have "new' = new" by simp
  with i have i': "integrated env tree old st fetched new slr es" by simp
  from integrated_events(2) [OF i'] have "StoreSignedLogRoot slr \<in> set (calls s0 s1)"
    by (simp add: cl)
  with i' fetched_hashes [OF f] n ns show thesis by (auto intro: that)
qed

lemma GetRootHash_empty: "GetRootHash H (NewEmptyRange 0) visitor acc = Inr (None, acc)"
  by (simp add: GetRootHash_def NewEmptyRange_def)

section \<open>Example environments\<close>

text \<open>
  A hasher that concatenates its arguments behind a marker byte, a clock that advances
  by one nanosecond per reading, and a storage transaction that answers with a given
  latest root, queue of leaves and list of nodes, and accepts every write.
\<close>

definition testHash :: "bytes \<Rightarrow> bytes \<Rightarrow> bytes" where
  "testHash l r = Some (1 # bytes_of l @ bytes_of r)"

definition testLeaf :: "byte \<Rightarrow> int64 \<Rightarrow> LogLeaf" where
  "testLeaf b i = \<lparr>MerkleLeafHash = Some [b], LeafValue = None, ExtraData = None, LeafIndex = i,
     LeafIdentityHash = None, QueueTimestamp = None, IntegrateTimestamp = None\<rparr>"

definition testEnv :: "LogRootV1 \<Rightarrow> LogLeaf list \<Rightarrow> Node list \<Rightarrow> env" where
  "testEnv old queue nodes =
     \<lparr>hasher_HashChildren = testHash,
      hasher_EmptyRoot = Some [0],
      timeSource_Now = (\<lambda>k. 1000 + int k),
      storage_begin = None,
      storage_commit = None,
      tx_LatestSignedLogRoot = Inr \<lparr>KeyHint = None, LogRoot = Some [], LogRootSignature = None\<rparr>,
      tx_DequeueLeaves = (\<lambda>limit cutoff. Inr (take (nat limit) queue)),
      tx_GetMerkleNodes = (\<lambda>rev ids. Inr nodes),
      tx_WriteRevision = Inr (Revision old + 1),
      tx_UpdateSequencedLeaves = (\<lambda>_. None),
      tx_SetMerkleNodes = (\<lambda>_. None),
      tx_StoreSignedLogRoot = (\<lambda>_. None),
      root_UnmarshalBinary = (\<lambda>_. Inr old),
      signer_SignLogRoot = (\<lambda>r. Inr \<lparr>KeyHint = None, LogRoot = RootHash r, LogRootSignature = Some [7]\<rparr>),
      qm_PutTokens = (\<lambda>_ _. None),
      ptypes_TimestampProto = (\<lambda>t. Inr \<lparr>Seconds = 0, Nanos = 0\<rparr>),
      ptypes_Timestamp = (\<lambda>t. Inr 0),
      QuotaIncreaseFactor = \<lparr>Mant = 4953959590107546, Exp = - 52\<rparr>\<rparr>"

definition initState :: state where
  "initState = \<lparr>ticks = 0, trace = []\<rparr>"

definition freshRoot :: LogRootV1 where
  "freshRoot = \<lparr>TreeSize = 0, RootHash = None, TimestampNanos = 0, Revision = 0, Metadata = None\<rparr>"

text \<open>
  A log of three leaves at revision 1, the two nodes on its right border, and a fourth
  leaf in the queue; appending it gives the root \<open>root4\<close>.
\<close>

lemma upt64:
  "[0..<64] = [0, 1, 2, 3, 4, 5, 6, 7]
     @ [8, 9, 10, 11, 12, 13, 14, 15]
     @ [16, 17, 18, 19, 20, 21, 22, 23]
     @ [24, 25, 26, 27, 28, 29, 30, 31]
     @ [32, 33, 34, 35, 36, 37, 38, 39]
     @ [40, 41, 42, 43, 44, 45, 46, 47]
     @ [48, 49, 50, 51, 52, 53, 54, 55]
     @ [56, 57, 58, 59, 60, 61, 62, 63]"
  by code_simp

lemmas run_simps =
  IntegrateBatch_def ReadWriteTransaction_def txBody_def loadRoot_def selectTask_def
  nothingToIntegrate_def integrate_def initCompactRangeFromStorage_def prepareLeaves_def
  updateCompactRange_def replenishQuota_def
  thenDo_def return_def throw_def attempt_def check_def emit_def call_def Now_def
  observeSince_def deferred_def wrapErr_def
  NewEmptyRange_def NewRange_def End_def Append_def GetRootHash_def store_def UnixNano_def
  NewNodeIDForTreeCoords_def maxTreeDepth_def RangeNodesForPrefix_def OnesCount64_def
  TrailingZeros64_def Equivalent_def bytes_Equal_def bytes_of_def upt64
  mergeBorder_even mergeBorder_odd bit_0 Let_def
  testEnv_def testHash_def testLeaf_def initState_def

definition tree7 :: Tree where
  "tree7 = \<lparr>TreeId = 7, TreeType = LOG\<rparr>"

definition root3 :: LogRootV1 where
  "root3 = \<lparr>TreeSize = 3, RootHash = Some [1, 1, 10, 11, 12], TimestampNanos = 5, Revision = 1, Metadata = None\<rparr>"

definition nodes3 :: "Node list" where
  "nodes3 = [\<lparr>NodeID = \<lparr>Path = 0, PrefixLenBits = 63\<rparr>, Hash = Some [1, 10, 11], NodeRevision = 1\<rparr>,
             \<lparr>NodeID = \<lparr>Path = 2, PrefixLenBits = 64\<rparr>, Hash = Some [12], NodeRevision = 1\<rparr>]"

definition root4 :: LogRootV1 where
  "root4 = \<lparr>TreeSize = 4, RootHash = Some [1, 1, 10, 11, 1, 12, 13], TimestampNanos = 1015, Revision = 2, Metadata = None\<rparr>"

lemma run_append_fst:
  "fst (IntegrateBatch (testEnv root3 [testLeaf 13 0] nodes3) tree7 10 0 0 initState) = (1, None)"
  by (simp add: run_simps tree7_def root3_def nodes3_def)

lemma run_append_signed:
  "SignLogRoot root4 \<in> set (trace (snd (IntegrateBatch (testEnv root3 [testLeaf 13 0] nodes3) tree7 10 0 0 initState)))"
  by (simp add: run_simps tree7_def root3_def nodes3_def root4_def)

definition leaves3 :: "bytes list" where
  "leaves3 = [Some [10], Some [11], Some [12]]"

lemma run_append:
  "IntegrateBatch (testEnv root3 [testLeaf 13 0] nodes3) tree7 10 0 0 initState =
     ((1, None), snd (IntegrateBatch (testEnv root3 [testLeaf 13 0] nodes3) tree7 10 0 0 initState))"
  using run_append_fst by (simp add: prod_eq_iff)

lemma run_append_calls:
  "SignLogRoot root4 \<in> set (calls initState
     (snd (IntegrateBatch (testEnv root3 [testLeaf 13 0] nodes3) tree7 10 0 0 initState)))"
  using run_append_signed by (simp add: calls_def initState_def)

lemma nodes3_hashes:
  "\<forall>ids nodes i. storageIDs (RangeNodesForPrefix (TreeSize root3)) = Inr ids \<longrightarrow>
     tx_GetMerkleNodes (testEnv root3 q nodes3) (Revision root3) ids = Inr nodes \<longrightarrow>
     i < length nodes \<longrightarrow> i < length (RangeNodesForPrefix (TreeSize root3)) \<longrightarrow>
     Hash (nodes ! i) = subtreeHash (hasher_HashChildren (testEnv root3 q nodes3))
       (hasher_EmptyRoot (testEnv root3 q nodes3)) leaves3 (RangeNodesForPrefix (TreeSize root3) ! i)"
proof (intro allI impI)
  fix ids nodes i
  assume a: "tx_GetMerkleNodes (testEnv root3 q nodes3) (Revision root3) ids = Inr nodes"
    and b: "i < length nodes"
  from a have n: "nodes = nodes3" by (simp add: testEnv_def)
  have r: "RangeNodesForPrefix (TreeSize root3) = [\<lparr>Level = 1, Index = 0\<rparr>, \<lparr>Level = 0, Index = 2\<rparr>]"
    by (simp add: RangeNodesForPrefix_def upt64 root3_def)
  have h: "hasher_HashChildren (testEnv root3 q nodes3) = testHash"
    "hasher_EmptyRoot (testEnv root3 q nodes3) = Some [0]"
    by (simp_all add: testEnv_def)
  have s0: "subtreeHash testHash (Some [0]) leaves3 \<lparr>Level = 1, Index = 0\<rparr> = Some [1, 10, 11]"
    by (simp add: leaves3_def subtreeHash_def subtreeRoot_def testHash_def bytes_of_def
        splitPoint_def pow2Below.simps)
  have s1: "subtreeHash testHash (Some [0]) leaves3 \<lparr>Level = 0, Index = 2\<rparr> = Some [12]"
    by (simp add: leaves3_def subtreeHash_def subtreeRoot_def)
  from b n have "i = 0 \<or> i = 1" by (auto simp: nodes3_def)
  then show "Hash (nodes ! i) = subtreeHash (hasher_HashChildren (testEnv root3 q nodes3))
       (hasher_EmptyRoot (testEnv root3 q nodes3)) leaves3 (RangeNodesForPrefix (TreeSize root3) ! i)"
    unfolding h r n by (auto simp: s0 s1 nodes3_def)
qed

section \<open>The claims\<close>

text \<open>
  C1. For every successful \<open>IntegrateBatch\<close> call that has a new root signed and
  stored, the root hash of that root is the Merkle tree hash, computed from scratch by
  the reference implementation under the hasher's \<open>HashChildren\<close>, of the full
  sequence of leaf hashes: those of the old tree followed by those of the batch; the new
  tree size is the length of that sequence. The old leaves enter through the storage:
  the nodes it returns for the border node IDs that \<open>initCompactRangeFromStorage\<close>
  requests (the storage IDs of \<open>RangeNodesForPrefix\<close> of the old size, at the old
  revision) carry the hashes of the subtrees they stand for; nothing is asked of its
  answers to other requests. In particular for the empty sequence the reference hash is the
  hasher's empty root, although the compact range gives the nil hash for it.
\<close>

theorem root_hash_consistency:
  assumes run: "IntegrateBatch env tree limit guardWindow maxRootDurationInterval s0 = ((n, None), s1)"
    and signed: "SignLogRoot new \<in> set (calls s0 s1)"
    and old: "tx_LatestSignedLogRoot env = Inr sth" "root_UnmarshalBinary env (LogRoot sth) = Inr old"
    and batch: "tx_DequeueLeaves env limit (timeSource_Now env (ticks s0) + sint (- guardWindow)) = Inr dq"
    and size: "length oldLeaves = unat (TreeSize old)"
    and nodes: "\<forall>ids nodes i. storageIDs (RangeNodesForPrefix (TreeSize old)) = Inr ids \<longrightarrow>
           tx_GetMerkleNodes env (Revision old) ids = Inr nodes \<longrightarrow>
           i < length nodes \<longrightarrow> i < length (RangeNodesForPrefix (TreeSize old)) \<longrightarrow>
           Hash (nodes ! i) = subtreeHash (hasher_HashChildren env) (hasher_EmptyRoot env) oldLeaves
             (RangeNodesForPrefix (TreeSize old) ! i)"
  shows "RootHash new = merkleRoot (hasher_HashChildren env) (hasher_EmptyRoot env)
                          (oldLeaves @ map MerkleLeafHash dq)
       \<and> unat (TreeSize new) = length (oldLeaves @ map MerkleLeafHash dq)
       \<and> merkleRoot (hasher_HashChildren env) (hasher_EmptyRoot env) [] = hasher_EmptyRoot env
       \<and> GetRootHash (hasher_HashChildren env) (NewEmptyRange 0) (Some store) [] = Inr (None, [])
       \<and> (\<exists>slr. signer_SignLogRoot env new = Inr slr \<and> StoreSignedLogRoot slr \<in> set (calls s0 s1))"
proof -
  let ?H = "hasher_HashChildren env" and ?E = "hasher_EmptyRoot env"
  obtain st fetched slr es where
    i: "integrated env tree old st fetched new slr es"
    and h: "map MerkleLeafHash fetched = map MerkleLeafHash dq"
    and "length fetched = length dq"
    and "n = int (length dq)"
    and s: "StoreSignedLogRoot slr \<in> set (calls s0 s1)"
    and "\<not> skipBatch old maxRootDurationInterval (timeSource_Now env (ticks s0 + 5)) fetched"
    by (rule IntegrateBatch_signed [OF run signed old batch])
  from i obtain cr leaves cr' nodeMap newRoot at tnow where
    ini: "initialised env old cr"
    and l: "leaves = map (\<lambda>l. l\<lparr>IntegrateTimestamp := Some at\<rparr>) fetched"
    and u: "updateCompactRange env cr leaves = Inr (cr', nodeMap, newRoot)"
    and new: "new = \<lparr>TreeSize = End cr',
                  RootHash = (if End cr' = 0 then ?E else newRoot),
                  TimestampNanos = UnixNano tnow,
                  Revision = Revision old + 1,
                  Metadata = None\<rparr>"
    and sg: "signer_SignLogRoot env new = Inr slr"
    by (auto simp: integrated_def)
  have lh: "map MerkleLeafHash leaves = map MerkleLeafHash dq"
    using h by (simp add: l comp_def)
  have c: "covers ?H ?E cr oldLeaves"
    by (rule initialised_covers [OF ini size]) (use nodes in blast)
  note r = updateCompactRange_root [OF u c, unfolded lh]
  have sz: "unat (TreeSize new) = length (oldLeaves @ map MerkleLeafHash dq)"
    using r(1) new by simp
  have "RootHash new = merkleRoot ?H ?E (oldLeaves @ map MerkleLeafHash dq)"
  proof (cases "oldLeaves @ map MerkleLeafHash dq = []")
    case True
    with r(1) have "End cr' = 0" by (simp add: unat_eq_0)
    with True new show ?thesis by simp
  next
    case False
    with r(1) have "End cr' \<noteq> 0" by (auto simp: unat_eq_0)
    with r(2) [OF False] new show ?thesis by simp
  qed
  with sz sg s show ?thesis by (auto simp: GetRootHash_empty)
qed

theorem root_hash_consistency_witness:
  "fst (IntegrateBatch (testEnv root3 [testLeaf 13 0] nodes3) tree7 10 0 0 initState) = (1, None)
   \<and> SignLogRoot root4 \<in> set (calls initState
        (snd (IntegrateBatch (testEnv root3 [testLeaf 13 0] nodes3) tree7 10 0 0 initState)))
   \<and> RootHash root4 = merkleRoot testHash (Some [0]) (leaves3 @ [Some [13]])
   \<and> unat (TreeSize root4) = length (leaves3 @ [Some [13]])
   \<and> merkleRoot testHash (Some [0]) (leaves3 @ [Some [13]]) = Some [1, 1, 10, 11, 1, 12, 13]"
proof -
  have old: "tx_LatestSignedLogRoot (testEnv root3 [testLeaf 13 0] nodes3)
      = Inr \<lparr>KeyHint = None, LogRoot = Some [], LogRootSignature = None\<rparr>"
    "root_UnmarshalBinary (testEnv root3 [testLeaf 13 0] nodes3)
       (LogRoot \<lparr>KeyHint = None, LogRoot = Some [], LogRootSignature = None\<rparr>) = Inr root3"
    by (simp_all add: testEnv_def)
  have batch: "tx_DequeueLeaves (testEnv root3 [testLeaf 13 0] nodes3) 10
      (timeSource_Now (testEnv root3 [testLeaf 13 0] nodes3) (ticks initState) + sint (- (0 :: Duration)))
      = Inr [testLeaf 13 0]"
    by (simp add: testEnv_def)
  have size: "length leaves3 = unat (TreeSize root3)"
    by (simp add: leaves3_def root3_def)
  from root_hash_consistency [OF run_append run_append_calls old batch size nodes3_hashes]
  have "RootHash root4 = merkleRoot testHash (Some [0]) (leaves3 @ [Some [13]])
      \<and> unat (TreeSize root4) = length (leaves3 @ [Some [13]])"
    by (simp add: testEnv_def testLeaf_def)
  moreover have "merkleRoot testHash (Some [0]) (leaves3 @ [Some [13]]) = Some [1, 1, 10, 11, 1, 12, 13]"
    by (simp add: leaves3_def splitPoint_def pow2Below.simps testHash_def bytes_of_def)
  ultimately show ?thesis using run_append_fst run_append_calls by simp
qed

text \<open>
  C10. If the latest stored root decodes to a \<open>LogRootV1\<close> whose root hash is absent
  (nil), \<open>IntegrateBatch\<close> returns \<open>ErrTreeNeedsInit\<close> with a leaf count of 0, for
  every tree whatever its type: the fresh-log check precedes the dispatch on the tree
  type, so no leaves are dequeued and the unsupported-tree-type error is not reported.
  The calls made are exactly the read of the latest root, the metrics of the closure and
  the rollback.
\<close>

theorem fresh_log_needs_init:
  assumes "storage_begin env = None"
    and "tx_LatestSignedLogRoot env = Inr sth"
    and "root_UnmarshalBinary env (LogRoot sth) = Inr cur"
    and "RootHash cur = None"
  shows "IntegrateBatch env tree limit guardWindow maxRootDurationInterval s0 =
           ((0, Some ErrTreeNeedsInit),
            s0\<lparr>ticks := ticks s0 + 4,
               trace := trace s0 @ [BeginTx, LatestSignedLogRoot,
                 Observe seqGetRootLatency (TreeId tree), SetGauge seqTreeSize (TreeId tree),
                 Observe seqLatency (TreeId tree), Inc seqBatches (TreeId tree), Rollback]\<rparr>)"
  using assms
  by (simp add: IntegrateBatch_def ReadWriteTransaction_def txBody_def loadRoot_def
      thenDo_def Now_def call_def check_def attempt_def return_def throw_def emit_def
      observeSince_def deferred_def)

theorem fresh_log_needs_init_witness:
  "IntegrateBatch (testEnv freshRoot [] []) \<lparr>TreeId = 7, TreeType = MAP\<rparr> 10 0 0 initState =
     ((0, Some ErrTreeNeedsInit),
      \<lparr>ticks = 4,
       trace = [BeginTx, LatestSignedLogRoot, Observe seqGetRootLatency 7, SetGauge seqTreeSize 7,
                Observe seqLatency 7, Inc seqBatches 7, Rollback]\<rparr>)"
  using fresh_log_needs_init [of "testEnv freshRoot [] []"
      "\<lparr>KeyHint = None, LogRoot = Some [], LogRootSignature = None\<rparr>" freshRoot
      "\<lparr>TreeId = 7, TreeType = MAP\<rparr>" 10 0 0 initState]
  by (simp add: testEnv_def freshRoot_def initState_def)







lemma assignIndices_ok:
  "(\<forall>j<length dq. 0 \<le> sint (ts + of_nat (i + j))) \<Longrightarrow>
     assignIndices ts i dq
       = Inr (map (\<lambda>(k, leaf). leaf\<lparr>LeafIndex := ts + of_nat k\<rparr>) (enumerate i dq))"
proof (induction dq arbitrary: i)
  case Nil
  then show ?case by simp
next
  case (Cons leaf rest)
  from Cons.prems have h: "0 \<le> sint (ts + of_nat i)" by force
  have "\<forall>j<length rest. 0 \<le> sint (ts + of_nat (Suc i + j))"
  proof (intro allI impI)
    fix j assume "j < length rest"
    then have "Suc j < length (leaf # rest)" by simp
    with Cons.prems have "0 \<le> sint (ts + of_nat (i + Suc j))" by blast
    then show "0 \<le> sint (ts + of_nat (Suc i + j))" by simp
  qed
  from Cons.IH [OF this] h show ?case by (simp add: Let_def)
qed

lemma assignIndices_overflow:
  "j < length dq \<Longrightarrow> sint (ts + of_nat (i + j)) < 0 \<Longrightarrow>
     \<exists>got. assignIndices ts i dq = Inl (LeafIndexOverflow got) \<and> sint got < 0"
proof (induction dq arbitrary: i j)
  case Nil
  then show ?case by simp
next
  case (Cons leaf rest)
  show ?case
  proof (cases "sint (ts + of_nat i) < 0")
    case True
    then show ?thesis by (simp add: Let_def)
  next
    case False
    with Cons.prems obtain j' where j: "j = Suc j'" by (cases j) auto
    with Cons.prems have "j' < length rest" "sint (ts + of_nat (Suc i + j')) < 0" by simp_all
    from Cons.IH [OF this] False show ?thesis by (auto simp: Let_def)
  qed
qed

lemma fetch_fst:
  "tx_DequeueLeaves env limit cutoff = Inr dq \<Longrightarrow>
     fst (fetch env st ts label limit cutoff s)
       = (case st of logSequencingTask \<Rightarrow> assignIndices ts 0 dq
          | preorderedLogSequencingTask \<Rightarrow> Inr dq)"
  by (cases st; cases "assignIndices ts 0 dq")
    (simp_all add: thenDo_def Now_def call_def attempt_def return_def throw_def
      observeSince_def emit_def)

lemma IntegrateBatch_aligned:
  assumes run: "IntegrateBatch env tree limit gw maxdur s0 = ((n, None), s1)"
    and old: "tx_LatestSignedLogRoot env = Inr sth" "root_UnmarshalBinary env (LogRoot sth) = Inr old"
    and batch: "tx_DequeueLeaves env limit (timeSource_Now env (ticks s0) + sint (- gw)) = Inr dq"
  shows "\<exists>st fetched. selectTask tree = Inr st
           \<and> fst (fetch env st (TreeSize old) (TreeId tree) limit
                  (timeSource_Now env (ticks s0) + sint (- gw)) s) = Inr fetched
           \<and> n = int (length fetched)
           \<and> (\<forall>j<length fetched. LeafIndex (fetched ! j) = TreeSize old + of_nat j
                  \<and> 0 \<le> sint (LeafIndex (fetched ! j)))"
proof -
  from IntegrateBatch_ok [OF run] old batch obtain st fetched es where
    st: "selectTask tree = Inr st"
    and f: "case st of logSequencingTask \<Rightarrow> assignIndices (TreeSize old) 0 dq = Inr fetched
          | preorderedLogSequencingTask \<Rightarrow> fetched = dq"
    and n: "n = int (length fetched)"
    and c: "if skipBatch old maxdur (timeSource_Now env (ticks s0 + 5)) fetched then es = []
          else \<exists>new slr. integrated env tree old st fetched new slr es"
    by auto
  from f have ff: "fst (fetch env st (TreeSize old) (TreeId tree) limit
                  (timeSource_Now env (ticks s0) + sint (- gw)) s) = Inr fetched"
    by (simp add: fetch_fst [OF batch] del: fetch.simps split: sequencingTask.splits)
  have "\<forall>j<length fetched. LeafIndex (fetched ! j) = TreeSize old + of_nat j
                  \<and> 0 \<le> sint (LeafIndex (fetched ! j))"
  proof (cases "skipBatch old maxdur (timeSource_Now env (ticks s0 + 5)) fetched")
    case True
    then show ?thesis by (simp add: skipBatch_def)
  next
    case False
    with c obtain new slr where "integrated env tree old st fetched new slr es" by auto
    then obtain cr where ini: "initialised env old cr"
      and idx: "\<forall>j<length fetched. LeafIndex (fetched ! j) = End cr + of_nat j
               \<and> 0 \<le> sint (LeafIndex (fetched ! j))"
      by (auto simp: integrated_def)
    from idx show ?thesis unfolding initialised_End [OF ini] .
  qed
  with st ff n show ?thesis by blast
qed

text \<open>
  C3. In normal (LOG) mode \<open>fetch\<close> gives the \<open>i\<close>-th dequeued leaf the index
  \<open>treeSize + i\<close>, and returns a leaf-index-overflow error as soon as an assigned index
  is negative as a signed 64-bit integer. In either mode, when \<open>IntegrateBatch\<close>
  succeeds, the leaves that \<open>fetch\<close> returned have the indices \<open>old.tree_size\<close>,
  \<open>old.tree_size + 1\<close>, ... in this order, all non-negative; so a batch with a leaf
  out of this alignment makes the transaction fail.
\<close>

theorem leaf_index_alignment:
  assumes batch: "tx_DequeueLeaves env limit cutoff = Inr dq"
  shows "((\<forall>i<length dq. 0 \<le> sint (treeSize + of_nat i)) \<longrightarrow>
            fst (fetch env logSequencingTask treeSize label limit cutoff s)
              = Inr (map (\<lambda>(i, leaf). leaf\<lparr>LeafIndex := treeSize + of_nat i\<rparr>) (enumerate 0 dq)))
       \<and> ((\<exists>i<length dq. sint (treeSize + of_nat i) < 0) \<longrightarrow>
            (\<exists>got. fst (fetch env logSequencingTask treeSize label limit cutoff s)
                     = Inl (LeafIndexOverflow got) \<and> sint got < 0))
       \<and> (IntegrateBatch env tree limit guardWindow maxRootDurationInterval s0 = ((n, None), s1)
            \<and> cutoff = timeSource_Now env (ticks s0) + sint (- guardWindow)
            \<and> tx_LatestSignedLogRoot env = Inr sth
            \<and> root_UnmarshalBinary env (LogRoot sth) = Inr old \<longrightarrow>
            (\<exists>st fetched. selectTask tree = Inr st
               \<and> fst (fetch env st (TreeSize old) (TreeId tree) limit cutoff s) = Inr fetched
               \<and> n = int (length fetched)
               \<and> (\<forall>j<length fetched. LeafIndex (fetched ! j) = TreeSize old + of_nat j
                      \<and> 0 \<le> sint (LeafIndex (fetched ! j)))))"
proof (intro conjI impI)
  assume "\<forall>i<length dq. 0 \<le> sint (treeSize + of_nat i)"
  then have "\<forall>j<length dq. 0 \<le> sint (treeSize + of_nat (0 + j))" by simp
  from assignIndices_ok [OF this]
  show "fst (fetch env logSequencingTask treeSize label limit cutoff s)
      = Inr (map (\<lambda>(i, leaf). leaf\<lparr>LeafIndex := treeSize + of_nat i\<rparr>) (enumerate 0 dq))"
    by (simp add: fetch_fst [OF batch] del: fetch.simps)
next
  assume "\<exists>i<length dq. sint (treeSize + of_nat i) < 0"
  then obtain i where "i < length dq" "sint (treeSize + of_nat (0 + i)) < 0" by auto
  from assignIndices_overflow [OF this]
  show "\<exists>got. fst (fetch env logSequencingTask treeSize label limit cutoff s)
                     = Inl (LeafIndexOverflow got) \<and> sint got < 0"
    by (simp add: fetch_fst [OF batch] del: fetch.simps)
next
  assume a: "IntegrateBatch env tree limit guardWindow maxRootDurationInterval s0 = ((n, None), s1)
            \<and> cutoff = timeSource_Now env (ticks s0) + sint (- guardWindow)
            \<and> tx_LatestSignedLogRoot env = Inr sth
            \<and> root_UnmarshalBinary env (LogRoot sth) = Inr old"
  then have run: "IntegrateBatch env tree limit guardWindow maxRootDurationInterval s0 = ((n, None), s1)"
    and c: "cutoff = timeSource_Now env (ticks s0) + sint (- guardWindow)"
    and old: "tx_LatestSignedLogRoot env = Inr sth" "root_UnmarshalBinary env (LogRoot sth) = Inr old"
    by simp_all
  from batch c have b: "tx_DequeueLeaves env limit (timeSource_Now env (ticks s0) + sint (- guardWindow)) = Inr dq"
    by simp
  from IntegrateBatch_aligned [OF run old b, of s]
  show "\<exists>st fetched. selectTask tree = Inr st
               \<and> fst (fetch env st (TreeSize old) (TreeId tree) limit cutoff s) = Inr fetched
               \<and> n = int (length fetched)
               \<and> (\<forall>j<length fetched. LeafIndex (fetched ! j) = TreeSize old + of_nat j
                      \<and> 0 \<le> sint (LeafIndex (fetched ! j)))"
    by (simp only: c)
qed


theorem leaf_index_alignment_witness:
  "tx_DequeueLeaves (testEnv root3 [testLeaf 13 0] nodes3) 10 1000 = Inr [testLeaf 13 0]
   \<and> fst (fetch (testEnv root3 [testLeaf 13 0] nodes3) logSequencingTask (TreeSize root3) 7 10 1000
          initState) = Inr [testLeaf 13 3]
   \<and> fst (IntegrateBatch (testEnv root3 [testLeaf 13 0] nodes3) tree7 10 0 0 initState) = (1, None)
   \<and> LeafIndex (testLeaf 13 3) = TreeSize root3
   \<and> fst (fetch (testEnv root3 [testLeaf 13 0, testLeaf 14 0] nodes3) logSequencingTask
          0x7FFFFFFFFFFFFFFF 7 10 1000 initState) = Inl (LeafIndexOverflow 0x8000000000000000)"
proof -
  have batch: "tx_DequeueLeaves (testEnv root3 [testLeaf 13 0] nodes3) 10 1000 = Inr [testLeaf 13 0]"
    by (simp add: testEnv_def)
  have old: "tx_LatestSignedLogRoot (testEnv root3 [testLeaf 13 0] nodes3)
      = Inr \<lparr>KeyHint = None, LogRoot = Some [], LogRootSignature = None\<rparr>"
    "root_UnmarshalBinary (testEnv root3 [testLeaf 13 0] nodes3)
       (LogRoot \<lparr>KeyHint = None, LogRoot = Some [], LogRootSignature = None\<rparr>) = Inr root3"
    by (simp_all add: testEnv_def)
  have cutoff: "(1000 :: time) = timeSource_Now (testEnv root3 [testLeaf 13 0] nodes3) (ticks initState)
      + sint (- (0 :: Duration))"
    by (simp add: testEnv_def initState_def)
  have nonneg: "\<forall>i<length [testLeaf 13 0]. 0 \<le> sint (TreeSize root3 + of_nat i)"
    by (simp add: root3_def)
  note t = leaf_index_alignment [OF batch, of "TreeSize root3" 7 initState tree7 0 0 initState 1
      "snd (IntegrateBatch (testEnv root3 [testLeaf 13 0] nodes3) tree7 10 0 0 initState)"
      "\<lparr>KeyHint = None, LogRoot = Some [], LogRootSignature = None\<rparr>" root3]
  from t nonneg have f: "fst (fetch (testEnv root3 [testLeaf 13 0] nodes3) logSequencingTask
      (TreeSize root3) 7 10 1000 initState) = Inr [testLeaf 13 3]"
    by (simp add: root3_def testLeaf_def enumerate_eq_zip del: fetch.simps)
  from t run_append old cutoff obtain st fetched where
    "selectTask tree7 = Inr st"
    "fst (fetch (testEnv root3 [testLeaf 13 0] nodes3) st (TreeSize root3) (TreeId tree7) 10 1000
       initState) = Inr fetched"
    "\<forall>j<length fetched. LeafIndex (fetched ! j) = TreeSize root3 + of_nat j
        \<and> 0 \<le> sint (LeafIndex (fetched ! j))"
    by blast
  with f have "LeafIndex (testLeaf 13 3) = TreeSize root3"
    by (auto simp: selectTask_def tree7_def)
  moreover have "fst (fetch (testEnv root3 [testLeaf 13 0, testLeaf 14 0] nodes3) logSequencingTask
          0x7FFFFFFFFFFFFFFF 7 10 1000 initState) = Inl (LeafIndexOverflow 0x8000000000000000)"
    by (simp add: thenDo_def Now_def call_def attempt_def return_def throw_def observeSince_def
        emit_def testEnv_def testLeaf_def Let_def)
  ultimately show ?thesis using batch f run_append_fst by simp
qed

text \<open>
  C6, as the source has it. If the fetch returns no leaves, \<open>maxRootDurationInterval\<close>
  is not zero and the time since the old root's timestamp (the clock reading taken right
  after the fetch, the sixth of the call, minus the old timestamp, as a signed 64-bit
  integer) is not below it, then a successful \<open>IntegrateBatch\<close> returns 0 and has
  signed and stored a new root whose tree size is the old one, whose revision is the old
  revision plus one and whose timestamp is strictly greater than the old one. Its root
  hash is byte-equal (\<open>bytes.Equal\<close>) to the old one when the old tree is not empty;
  for an old tree of size 0 it is the hasher's empty root, whatever root hash the old
  root carried: no check compares the two.
\<close>

theorem forced_resign:
  assumes run: "IntegrateBatch env tree limit guardWindow maxRootDurationInterval s0 = ((n, None), s1)"
    and old: "tx_LatestSignedLogRoot env = Inr sth" "root_UnmarshalBinary env (LogRoot sth) = Inr old"
    and batch: "tx_DequeueLeaves env limit (timeSource_Now env (ticks s0) + sint (- guardWindow)) = Inr []"
    and nonzero: "maxRootDurationInterval \<noteq> 0"
    and elapsed: "\<not> sint (UnixNano (timeSource_Now env (ticks s0 + 5)) - TimestampNanos old)
                     < sint maxRootDurationInterval"
  shows "n = 0
       \<and> (\<exists>new slr. SignLogRoot new \<in> set (calls s0 s1)
             \<and> signer_SignLogRoot env new = Inr slr
             \<and> StoreSignedLogRoot slr \<in> set (calls s0 s1)
             \<and> TreeSize new = TreeSize old
             \<and> (if TreeSize old = 0 then RootHash new = hasher_EmptyRoot env
                 else bytes_Equal (RootHash new) (RootHash old))
             \<and> Revision new = Revision old + 1
             \<and> TimestampNanos old < TimestampNanos new)"
proof -
  from IntegrateBatch_ok [OF run] old batch obtain st fetched es where
    f: "case st of logSequencingTask \<Rightarrow> assignIndices (TreeSize old) 0 [] = Inr fetched
          | preorderedLogSequencingTask \<Rightarrow> fetched = []"
    and n: "n = int (length fetched)"
    and tr: "trace s1 = trace s0 @ BeginTx # loadEvents (TreeId tree)
           @ fetchEvents (TreeId tree) limit (timeSource_Now env (ticks s0) + sint (- guardWindow))
           @ es @ [Observe seqLatency (TreeId tree), Inc seqBatches (TreeId tree), Commit]
           @ replenishEvents env n (TreeId tree) @ [Add seqCounter n (TreeId tree)]"
    and c: "if skipBatch old maxRootDurationInterval (timeSource_Now env (ticks s0 + 5)) fetched
          then es = []
          else \<exists>new slr. integrated env tree old st fetched new slr es"
    by auto
  from f have fe: "fetched = []" by (cases st) auto
  from nonzero elapsed have
    "\<not> skipBatch old maxRootDurationInterval (timeSource_Now env (ticks s0 + 5)) fetched"
    by (simp add: skipBatch_def)
  with c obtain new slr where i: "integrated env tree old st fetched new slr es" by auto
  note cl = calls_append [OF tr]
  from integrated_events [OF i] have ev: "SignLogRoot new \<in> set (calls s0 s1)"
    "StoreSignedLogRoot slr \<in> set (calls s0 s1)"
    by (simp_all add: cl)
  from i fe obtain cr cr' nodeMap newRoot tnow where
    ini: "initialised env old cr"
    and u: "updateCompactRange env cr [] = Inr (cr', nodeMap, newRoot)"
    and new: "new = \<lparr>TreeSize = End cr',
                  RootHash = (if End cr' = 0 then hasher_EmptyRoot env else newRoot),
                  TimestampNanos = UnixNano tnow,
                  Revision = Revision old + 1,
                  Metadata = None\<rparr>"
    and ts: "TimestampNanos old < TimestampNanos new"
    and sg: "signer_SignLogRoot env new = Inr slr"
    by (auto simp: integrated_def)
  from u have cr': "cr' = cr"
    and g: "GetRootHash (hasher_HashChildren env) cr (Some store) [] = Inr (newRoot, nodeMap)"
    by (auto simp: updateCompactRange_def split: sum.splits)
  note e = initialised_End [OF ini]
  have sz: "TreeSize new = TreeSize old" using new cr' e by simp
  have "if TreeSize old = 0 then RootHash new = hasher_EmptyRoot env
        else bytes_Equal (RootHash new) (RootHash old)"
  proof (cases "TreeSize old = 0")
    case True
    with new cr' e show ?thesis by simp
  next
    case False
    with ini obtain h where
      "GetRootHash (hasher_HashChildren env) cr None () = Inr (h, ())"
      and eq: "bytes_Equal h (RootHash old)"
      by (auto simp: initialised_def)
    from GetRootHash_visitor [OF this(1) g] have "newRoot = h" by simp
    with False eq new cr' e show ?thesis by simp
  qed
  with n fe ev sg sz new ts show ?thesis by auto
qed


definition resigned3 :: LogRootV1 where
  "resigned3 = \<lparr>TreeSize = 3, RootHash = Some [1, 1, 10, 11, 12], TimestampNanos = 1016,
     Revision = 2, Metadata = None\<rparr>"

lemma run_resign_fst:
  "fst (IntegrateBatch (testEnv root3 [] nodes3) tree7 10 0 1 initState) = (0, None)"
  by (simp add: run_simps tree7_def root3_def nodes3_def)

lemma run_resign_signed:
  "SignLogRoot resigned3 \<in> set (calls initState
     (snd (IntegrateBatch (testEnv root3 [] nodes3) tree7 10 0 1 initState)))"
  by (simp add: run_simps calls_def tree7_def root3_def nodes3_def resigned3_def)

theorem forced_resign_witness:
  "fst (IntegrateBatch (testEnv root3 [] nodes3) tree7 10 0 1 initState) = (0, None)
   \<and> tx_DequeueLeaves (testEnv root3 [] nodes3) 10 1000 = Inr []
   \<and> sint (UnixNano 1005 - TimestampNanos root3) = 1000
   \<and> SignLogRoot resigned3 \<in> set (calls initState
        (snd (IntegrateBatch (testEnv root3 [] nodes3) tree7 10 0 1 initState)))
   \<and> TreeSize resigned3 = TreeSize root3
   \<and> RootHash resigned3 = RootHash root3
   \<and> Revision resigned3 = Revision root3 + 1
   \<and> TimestampNanos root3 < TimestampNanos resigned3
   \<and> (\<exists>new slr. SignLogRoot new \<in> set (calls initState
          (snd (IntegrateBatch (testEnv root3 [] nodes3) tree7 10 0 1 initState)))
        \<and> signer_SignLogRoot (testEnv root3 [] nodes3) new = Inr slr
        \<and> TreeSize new = TreeSize root3
        \<and> bytes_Equal (RootHash new) (RootHash root3))"
proof -
  have run: "IntegrateBatch (testEnv root3 [] nodes3) tree7 10 0 1 initState =
     ((0, None), snd (IntegrateBatch (testEnv root3 [] nodes3) tree7 10 0 1 initState))"
    using run_resign_fst by (simp add: prod_eq_iff)
  have old: "tx_LatestSignedLogRoot (testEnv root3 [] nodes3)
      = Inr \<lparr>KeyHint = None, LogRoot = Some [], LogRootSignature = None\<rparr>"
    "root_UnmarshalBinary (testEnv root3 [] nodes3)
       (LogRoot \<lparr>KeyHint = None, LogRoot = Some [], LogRootSignature = None\<rparr>) = Inr root3"
    by (simp_all add: testEnv_def)
  have batch: "tx_DequeueLeaves (testEnv root3 [] nodes3) 10
      (timeSource_Now (testEnv root3 [] nodes3) (ticks initState) + sint (- (0 :: Duration))) = Inr []"
    by (simp add: testEnv_def)
  have nonzero: "(1 :: Duration) \<noteq> 0" by simp
  have e: "sint (UnixNano 1005 - TimestampNanos root3) = 1000"
    by (simp add: UnixNano_def root3_def)
  have elapsed: "\<not> sint (UnixNano (timeSource_Now (testEnv root3 [] nodes3) (ticks initState + 5))
      - TimestampNanos root3) < sint (1 :: Duration)"
    using e by (simp add: testEnv_def initState_def)
  have size: "TreeSize root3 \<noteq> 0" by (simp add: root3_def)
  from forced_resign [OF run old batch nonzero elapsed] size
  have "\<exists>new slr. SignLogRoot new \<in> set (calls initState
          (snd (IntegrateBatch (testEnv root3 [] nodes3) tree7 10 0 1 initState)))
        \<and> signer_SignLogRoot (testEnv root3 [] nodes3) new = Inr slr
        \<and> TreeSize new = TreeSize root3
        \<and> bytes_Equal (RootHash new) (RootHash root3)"
    by (simp only: if_False) blast
  moreover have "tx_DequeueLeaves (testEnv root3 [] nodes3) 10 1000 = Inr []"
    by (simp add: testEnv_def)
  moreover have "TreeSize resigned3 = TreeSize root3" "RootHash resigned3 = RootHash root3"
    "Revision resigned3 = Revision root3 + 1" "TimestampNanos root3 < TimestampNanos resigned3"
    by (simp_all add: resigned3_def root3_def)
  ultimately show ?thesis using run_resign_fst run_resign_signed e by simp
qed

text \<open>
  The root hash is not always the old one: for an old tree of size 0 no check reads the
  old root hash (lines 139-141) and the new one is the hasher's empty root (lines
  448-451). An old root of size 0 that carries another hash is re-signed with a
  different root hash.
\<close>

definition emptyRoot9 :: LogRootV1 where
  "emptyRoot9 = \<lparr>TreeSize = 0, RootHash = Some [9], TimestampNanos = 5, Revision = 1,
     Metadata = None\<rparr>"

definition resigned0 :: LogRootV1 where
  "resigned0 = \<lparr>TreeSize = 0, RootHash = Some [0], TimestampNanos = 1016, Revision = 2,
     Metadata = None\<rparr>"

theorem resign_root_hash_counterexample:
  "tx_DequeueLeaves (testEnv emptyRoot9 [] []) 10 1000 = Inr []
   \<and> sint (UnixNano 1005 - TimestampNanos emptyRoot9) = 1000
   \<and> fst (IntegrateBatch (testEnv emptyRoot9 [] []) tree7 10 0 1 initState) = (0, None)
   \<and> SignLogRoot resigned0
       \<in> set (calls initState
             (snd (IntegrateBatch (testEnv emptyRoot9 [] []) tree7 10 0 1 initState)))
   \<and> StoreSignedLogRoot
         \<lparr>KeyHint = None, LogRoot = RootHash resigned0, LogRootSignature = Some [7]\<rparr>
       \<in> set (calls initState
             (snd (IntegrateBatch (testEnv emptyRoot9 [] []) tree7 10 0 1 initState)))
   \<and> TreeSize resigned0 = TreeSize emptyRoot9
   \<and> \<not> bytes_Equal (RootHash resigned0) (RootHash emptyRoot9)"
  by (simp add: emptyRoot9_def resigned0_def calls_def run_simps tree7_def)

fun isWrite :: "event \<Rightarrow> bool" where
  "isWrite (UpdateSequencedLeaves _) = True"
| "isWrite (SetMerkleNodes _) = True"
| "isWrite (StoreSignedLogRoot _) = True"
| "isWrite _ = False"









fun afterTx :: "event \<Rightarrow> bool" where
  "afterTx (PutTokens _ _) = True"
| "afterTx (IncReplenished _ _ _) = True"
| "afterTx (Add _ _ _) = True"
| "afterTx _ = False"

lemma quiet_integrate_tx: "quiet (\<lambda>e. \<not> afterTx e) (integrate env tree cur st fetched)"
  unfolding integrate_def
  by (auto simp: Let_def intro!: quiet_init quiet_prepareLeaves quiet_update split: prod.splits)

lemma quiet_txBody:
  "quiet (\<lambda>e. \<not> afterTx e) (txBody env tree limit guardWindow maxRootDurationInterval start)"
  unfolding txBody_def
  by (intro quiet_deferred quiet_thenDo quiet_if quiet_loadRoot quiet_fetch quiet_wrapErr
      quiet_nothingToIntegrate quiet_integrate_tx quiet_attempt quiet_return quiet_emit
      quiet_observeSince) simp_all

lemma body_error_run:
  assumes bg: "storage_begin env = None"
    and body: "txBody env tree limit guardWindow maxRootDurationInterval
                 (timeSource_Now env (ticks s0))
                 (s0\<lparr>ticks := Suc (ticks s0), trace := trace s0 @ [BeginTx]\<rparr>) = (Inl e, s')"
  shows "IntegrateBatch env tree limit guardWindow maxRootDurationInterval s0
           = ((0, Some e), s'\<lparr>trace := trace s' @ [Rollback]\<rparr>)"
  using bg body
  by (simp add: IntegrateBatch_def ReadWriteTransaction_def thenDo_def Now_def call_def
      check_def return_def)

text \<open>
  C9. Let the transaction begin and its body (the closure of \<open>IntegrateBatch\<close>, run
  from the state reached after the first reading of the clock and the opening of the
  transaction) return an error \<open>e\<close>, at whatever point: also after a non-empty batch
  was fetched. Then \<open>IntegrateBatch\<close> returns a leaf count of 0 together with \<open>e\<close>, the
  transaction is rolled back, and none of the calls of the run is one of those that
  follow the transaction: no tokens are put (\<open>PutTokens\<close>, \<open>IncReplenished\<close>) and the
  counter of sequenced leaves is not added to.
\<close>

theorem body_error_skips_replenish:
  assumes bg: "storage_begin env = None"
    and body: "txBody env tree limit guardWindow maxRootDurationInterval
                 (timeSource_Now env (ticks s0))
                 (s0\<lparr>ticks := Suc (ticks s0), trace := trace s0 @ [BeginTx]\<rparr>) = (Inl e, s')"
  shows "IntegrateBatch env tree limit guardWindow maxRootDurationInterval s0
           = ((0, Some e), s'\<lparr>trace := trace s' @ [Rollback]\<rparr>)
       \<and> filter afterTx
           (calls s0 (snd (IntegrateBatch env tree limit guardWindow maxRootDurationInterval s0)))
         = []"
proof -
  from quietD [OF quiet_txBody body] obtain es where
    es: "trace s' = (trace s0 @ [BeginTx]) @ es" "list_all (\<lambda>e. \<not> afterTx e) es"
    by auto
  from es(2) have f: "filter afterTx es = []"
    by (simp add: list_all_iff filter_empty_conv)
  have run: "IntegrateBatch env tree limit guardWindow maxRootDurationInterval s0
           = ((0, Some e), s'\<lparr>trace := trace s' @ [Rollback]\<rparr>)"
    by (rule body_error_run [OF bg body])
  have "calls s0 (s'\<lparr>trace := trace s' @ [Rollback]\<rparr>) = BeginTx # es @ [Rollback]"
    by (simp add: calls_def es(1))
  with f run show ?thesis by simp
qed

definition staleEnv :: env where
  "staleEnv = (testEnv root3 [testLeaf 13 0] nodes3)\<lparr>tx_WriteRevision := Inr 7\<rparr>"

definition stateAfterMismatch :: state where
  "stateAfterMismatch = \<lparr>ticks = 9,
     trace = [BeginTx, LatestSignedLogRoot, Observe seqGetRootLatency 7, SetGauge seqTreeSize 7,
       DequeueLeaves 10 1000, Observe seqDequeueLatency 7,
       GetMerkleNodes 1 [\<lparr>Path = 0, PrefixLenBits = 63\<rparr>, \<lparr>Path = 2, PrefixLenBits = 64\<rparr>],
       Observe seqInitTreeLatency 7, WriteRevision, Observe seqLatency 7, Inc seqBatches 7]\<rparr>"

lemma stale_body:
  "txBody staleEnv tree7 10 0 0 (timeSource_Now staleEnv (ticks initState))
     (initState\<lparr>ticks := Suc (ticks initState), trace := trace initState @ [BeginTx]\<rparr>)
   = (Inl (RevisionMismatch 7 7 2), stateAfterMismatch)"
  by (simp add: staleEnv_def stateAfterMismatch_def run_simps tree7_def root3_def nodes3_def)

theorem body_error_skips_replenish_witness:
  "tx_DequeueLeaves staleEnv 10 1000 = Inr [testLeaf 13 0]
   \<and> IntegrateBatch staleEnv tree7 10 0 0 initState
       = ((0, Some (RevisionMismatch 7 7 2)),
          stateAfterMismatch\<lparr>trace := trace stateAfterMismatch @ [Rollback]\<rparr>)
   \<and> filter afterTx (calls initState (snd (IntegrateBatch staleEnv tree7 10 0 0 initState))) = []"
proof -
  have bg: "storage_begin staleEnv = None" by (simp add: staleEnv_def testEnv_def)
  have dq: "tx_DequeueLeaves staleEnv 10 1000 = Inr [testLeaf 13 0]"
    by (simp add: staleEnv_def testEnv_def)
  from body_error_skips_replenish [OF bg stale_body] dq show ?thesis by blast
qed

fun isDequeue :: "event \<Rightarrow> bool" where
  "isDequeue (DequeueLeaves _ _) = True"
| "isDequeue _ = False"

fun isNodeRead :: "event \<Rightarrow> bool" where
  "isNodeRead (GetMerkleNodes _ _) = True"
| "isNodeRead _ = False"

text \<open>
  The order of the source: no Merkle node is read from storage until the batch was
  dequeued.
\<close>

fun fetchFirst :: "event list \<Rightarrow> bool" where
  "fetchFirst [] = True"
| "fetchFirst (e # es) = (isDequeue e \<or> (\<not> isNodeRead e \<and> fetchFirst es))"

text \<open>
  The order of the specification ("reads SLR; rebuilds CompactRange from border nodes;
  SequencingTask.fetch yields ordered leaves"): nothing is dequeued until the Merkle
  nodes were read.
\<close>

fun rebuildFirst :: "event list \<Rightarrow> bool" where
  "rebuildFirst [] = True"
| "rebuildFirst (e # es) = (isNodeRead e \<or> (\<not> isDequeue e \<and> rebuildFirst es))"

lemma fetchFirst_prefix:
  "list_all (\<lambda>e. \<not> isNodeRead e) es1 \<Longrightarrow> fetchFirst es2 \<Longrightarrow> fetchFirst (es1 @ es2)"
  by (induction es1) auto

lemma fetchFirst_suffix:
  "fetchFirst es1 \<Longrightarrow> list_all (\<lambda>e. \<not> isNodeRead e) es2 \<Longrightarrow> fetchFirst (es1 @ es2)"
  by (induction es1) (auto intro: fetchFirst_prefix [where ?es2.0 = "[]", simplified])

definition ordered :: "'a prog \<Rightarrow> bool" where
  "ordered m \<longleftrightarrow> (\<forall>s r s'. m s = (r, s') \<longrightarrow> (\<exists>es. trace s' = trace s @ es \<and> fetchFirst es))"

lemma orderedD:
  assumes "ordered m" and "m s = (r, s')"
  obtains es where "trace s' = trace s @ es" "fetchFirst es"
  using assms unfolding ordered_def by blast

lemma ordered_quiet:
  assumes "quiet (\<lambda>e. \<not> isNodeRead e) m"
  shows "ordered m"
  unfolding ordered_def
proof (intro allI impI)
  fix s r s' assume "m s = (r, s')"
  from quietD [OF assms this] obtain es where
    "trace s' = trace s @ es" "list_all (\<lambda>e. \<not> isNodeRead e) es" .
  with fetchFirst_prefix [of es "[]"] show "\<exists>es. trace s' = trace s @ es \<and> fetchFirst es"
    by auto
qed

lemma ordered_thenDo:
  assumes "quiet (\<lambda>e. \<not> isNodeRead e) m" and "\<And>a. ordered (f a)"
  shows "ordered (thenDo m f)"
  unfolding ordered_def
proof (intro allI impI)
  fix s r s' assume run: "thenDo m f s = (r, s')"
  obtain r1 s1 where m: "m s = (r1, s1)" by (cases "m s")
  from quietD [OF assms(1) m] obtain es1 where
    e1: "trace s1 = trace s @ es1" "list_all (\<lambda>e. \<not> isNodeRead e) es1" .
  show "\<exists>es. trace s' = trace s @ es \<and> fetchFirst es"
  proof (cases r1)
    case (Inl e)
    with run m have "s' = s1" by (simp add: thenDo_def)
    with e1 fetchFirst_prefix [of es1 "[]"] show ?thesis by auto
  next
    case (Inr a)
    with run m have "f a s1 = (r, s')" by (simp add: thenDo_def)
    from orderedD [OF assms(2) this] obtain es2 where
      e2: "trace s' = trace s1 @ es2" "fetchFirst es2" .
    from e1 e2 have "trace s' = trace s @ (es1 @ es2)" by simp
    moreover from e1(2) e2(2) have "fetchFirst (es1 @ es2)" by (rule fetchFirst_prefix)
    ultimately show ?thesis by blast
  qed
qed

lemma ordered_fetch:
  assumes "\<And>a. quiet (\<lambda>_. True) (f a)"
  shows "ordered (thenDo (wrapErr (fetch env st treeSize label limit cutoff) w) f)"
  unfolding ordered_def
proof (intro allI impI)
  fix s r s'
  assume run: "thenDo (wrapErr (fetch env st treeSize label limit cutoff) w) f s = (r, s')"
  obtain r1 s1 where m: "fetch env st treeSize label limit cutoff s = (r1, s1)"
    by (cases "fetch env st treeSize label limit cutoff s")
  have q: "quiet (\<lambda>e. \<not> isNodeRead e) (fetch env st treeSize label limit cutoff)"
    by (rule quiet_fetch) simp_all
  show "\<exists>es. trace s' = trace s @ es \<and> fetchFirst es"
  proof (cases r1)
    case (Inl e)
    with run m have "s' = s1" by (simp add: thenDo_def wrapErr_def)
    moreover from quietD [OF q m] obtain es1 where
      "trace s1 = trace s @ es1" "list_all (\<lambda>e. \<not> isNodeRead e) es1" .
    ultimately show ?thesis using fetchFirst_prefix [of es1 "[]"] by auto
  next
    case (Inr ls)
    with m have ok: "fetch env st treeSize label limit cutoff s = (Inr ls, s1)" by simp
    from fetch_Inr(3) [OF ok] have t1: "trace s1 = trace s @ fetchEvents label limit cutoff" .
    from run ok have "f ls s1 = (r, s')" by (simp add: thenDo_def wrapErr_def)
    from quietD [OF assms this] obtain es2 where "trace s' = trace s1 @ es2" by blast
    with t1 have "trace s' = trace s @ (fetchEvents label limit cutoff @ es2)" by simp
    moreover have "fetchFirst (fetchEvents label limit cutoff @ es2)"
      by (simp add: fetchEvents_def)
    ultimately show ?thesis by blast
  qed
qed

lemma ordered_deferred:
  assumes "ordered m" and "quiet (\<lambda>e. \<not> isNodeRead e) d"
  shows "ordered (deferred m d)"
  unfolding ordered_def
proof (intro allI impI)
  fix s r s' assume run: "deferred m d s = (r, s')"
  obtain r1 s1 where m: "m s = (r1, s1)" by (cases "m s")
  obtain r2 s2 where d: "d s1 = (r2, s2)" by (cases "d s1")
  from run m d have s': "s' = s2" by (simp add: deferred_def)
  from orderedD [OF assms(1) m] obtain es1 where e1: "trace s1 = trace s @ es1" "fetchFirst es1" .
  from quietD [OF assms(2) d] obtain es2 where
    e2: "trace s2 = trace s1 @ es2" "list_all (\<lambda>e. \<not> isNodeRead e) es2" .
  from e1 e2 s' have "trace s' = trace s @ (es1 @ es2)" by simp
  moreover from e1(2) e2(2) have "fetchFirst (es1 @ es2)" by (rule fetchFirst_suffix)
  ultimately show "\<exists>es. trace s' = trace s @ es \<and> fetchFirst es" by blast
qed

lemma quiet_rest:
  "quiet (\<lambda>_. True)
     (thenDo (nothingToIntegrate env cur maxdur ls)
        (\<lambda>nothing. if nothing then return (int (length ls), None, None)
                    else integrate env tree cur st ls))"
  by (intro quiet_thenDo quiet_nothingToIntegrate quiet_if quiet_return quiet_integrate)

lemma ordered_txBody:
  "ordered (txBody env tree limit guardWindow maxRootDurationInterval start)"
  unfolding txBody_def
  by (intro ordered_deferred ordered_thenDo ordered_fetch quiet_rest quiet_loadRoot
      quiet_attempt quiet_thenDo quiet_observeSince quiet_emit) simp_all

lemma replenish_no_read: "list_all (\<lambda>e. \<not> isNodeRead e) (replenishEvents env n l)"
  by (simp add: replenishEvents_def Let_def)

lemma IntegrateBatch_calls:
  "\<exists>es tl. calls s0 (snd (IntegrateBatch env tree limit guardWindow maxRootDurationInterval s0))
             = BeginTx # es @ tl
     \<and> fetchFirst es \<and> list_all (\<lambda>e. \<not> isNodeRead e) tl"
proof -
  let ?s = "s0\<lparr>ticks := Suc (ticks s0), trace := trace s0 @ [BeginTx]\<rparr>"
  let ?b = "txBody env tree limit guardWindow maxRootDurationInterval (timeSource_Now env (ticks s0))"
  let ?run = "IntegrateBatch env tree limit guardWindow maxRootDurationInterval s0"
  obtain r s' where body: "?b ?s = (r, s')" by (cases "?b ?s")
  from orderedD [OF ordered_txBody body] obtain es where
    es: "trace s' = trace ?s @ es" "fetchFirst es" .
  show ?thesis
  proof (cases "storage_begin env")
    case (Some e)
    then have "snd ?run = ?s"
      by (simp add: IntegrateBatch_def ReadWriteTransaction_def thenDo_def Now_def call_def
          check_def throw_def)
    then have "calls s0 (snd ?run) = BeginTx # [] @ []" by (simp add: calls_def)
    then show ?thesis by (intro exI [of _ "[]"]) simp
  next
    case None
    show ?thesis
    proof (cases r)
      case (Inl e)
      with None body have "snd ?run = s'\<lparr>trace := trace s' @ [Rollback]\<rparr>"
        by (simp add: IntegrateBatch_def ReadWriteTransaction_def thenDo_def Now_def call_def
            check_def return_def)
      with es(1) have "calls s0 (snd ?run) = BeginTx # es @ [Rollback]" by (simp add: calls_def)
      with es(2) show ?thesis by (intro exI [of _ es] exI [of _ "[Rollback]"]) simp
    next
      case (Inr res)
      obtain n a b where res: "res = (n, a, b)" by (cases res)
      show ?thesis
      proof (cases "storage_commit env")
        case (Some e)
        with None body Inr have "snd ?run = s'\<lparr>trace := trace s' @ [Commit]\<rparr>"
          by (simp add: IntegrateBatch_def ReadWriteTransaction_def thenDo_def Now_def call_def
              check_def return_def throw_def)
        with es(1) have "calls s0 (snd ?run) = BeginTx # es @ [Commit]" by (simp add: calls_def)
        with es(2) show ?thesis by (intro exI [of _ es] exI [of _ "[Commit]"]) simp
      next
        case c: None
        let ?s1 = "s'\<lparr>trace := trace s' @ [Commit]\<rparr>"
        obtain r2 s2 where q: "replenishQuota env n (TreeId tree) ?s1 = (r2, s2)"
          by (cases "replenishQuota env n (TreeId tree) ?s1")
        from replenishQuota_eq [OF q] have
          r2: "r2 = Inr ()" and t2: "trace s2 = trace ?s1 @ replenishEvents env n (TreeId tree)"
          by simp_all
        from None c body Inr res q r2
        have "snd ?run = s2\<lparr>trace := trace s2 @ [Add seqCounter n (TreeId tree)]\<rparr>"
          by (simp add: IntegrateBatch_def ReadWriteTransaction_def thenDo_def Now_def call_def
              check_def return_def emit_def)
        with es(1) t2 have "calls s0 (snd ?run)
            = BeginTx # es @ (Commit # replenishEvents env n (TreeId tree)
                                @ [Add seqCounter n (TreeId tree)])"
          by (simp add: calls_def)
        with es(2) replenish_no_read [of env n "TreeId tree"] show ?thesis
          by (intro exI [of _ es]
              exI [of _ "Commit # replenishEvents env n (TreeId tree) @ [Add seqCounter n (TreeId tree)]"])
            simp
      qed
    qed
  qed
qed

text \<open>
  C8, as the source has it. Within every \<open>IntegrateBatch\<close> transaction the sequencing
  task's fetch dequeues the batch of leaves before the compact range is rebuilt from the
  persisted border nodes: in every run, whatever the environment answers and whether the
  run fails or not, no read of Merkle nodes (\<open>GetMerkleNodes\<close>) is made until
  \<open>DequeueLeaves\<close> was called.
\<close>

theorem fetch_precedes_rebuild:
  "fetchFirst (calls s0 (snd (IntegrateBatch env tree limit guardWindow maxRootDurationInterval s0)))"
proof -
  from IntegrateBatch_calls [of s0 env tree limit guardWindow maxRootDurationInterval]
  obtain es tl where
    c: "calls s0 (snd (IntegrateBatch env tree limit guardWindow maxRootDurationInterval s0))
          = BeginTx # es @ tl"
    and o: "fetchFirst es" "list_all (\<lambda>e. \<not> isNodeRead e) tl"
    by blast
  from o have "fetchFirst (es @ tl)" by (rule fetchFirst_suffix)
  with c show ?thesis by simp
qed

lemma run_append_prefix:
  "take 7 (calls initState
     (snd (IntegrateBatch (testEnv root3 [testLeaf 13 0] nodes3) tree7 10 0 0 initState)))
   = [BeginTx, LatestSignedLogRoot, Observe seqGetRootLatency 7, SetGauge seqTreeSize 7,
      DequeueLeaves 10 1000, Observe seqDequeueLatency 7,
      GetMerkleNodes 1 [\<lparr>Path = 0, PrefixLenBits = 63\<rparr>, \<lparr>Path = 2, PrefixLenBits = 64\<rparr>]]"
  by (simp add: calls_def run_simps tree7_def root3_def nodes3_def)

theorem fetch_precedes_rebuild_witness:
  "fetchFirst (calls initState
     (snd (IntegrateBatch (testEnv root3 [testLeaf 13 0] nodes3) tree7 10 0 0 initState)))
   \<and> take 7 (calls initState
     (snd (IntegrateBatch (testEnv root3 [testLeaf 13 0] nodes3) tree7 10 0 0 initState)))
   = [BeginTx, LatestSignedLogRoot, Observe seqGetRootLatency 7, SetGauge seqTreeSize 7,
      DequeueLeaves 10 1000, Observe seqDequeueLatency 7,
      GetMerkleNodes 1 [\<lparr>Path = 0, PrefixLenBits = 63\<rparr>, \<lparr>Path = 2, PrefixLenBits = 64\<rparr>]]"
  using fetch_precedes_rebuild [of initState "testEnv root3 [testLeaf 13 0] nodes3" tree7 10 0 0]
    run_append_prefix by blast

text \<open>
  The order C8 states does not hold of the source: in the run that appends a fourth leaf
  to a log of three, the batch is dequeued (line 375) before the Merkle nodes of the
  border are read (line 395).
\<close>

theorem rebuild_before_fetch_counterexample:
  "\<not> rebuildFirst (calls initState
     (snd (IntegrateBatch (testEnv root3 [testLeaf 13 0] nodes3) tree7 10 0 0 initState)))"
  by (simp add: calls_def run_simps tree7_def root3_def nodes3_def)

text \<open>
  The checks of \<open>initCompactRangeFromStorage\<close> on what storage returns for the border
  nodes of \<open>old\<close>: as many nodes as requested, each with an ID equivalent to the
  requested one, and hashes from which the root hash of \<open>old\<close> is recomputed.
\<close>

definition borderChecked :: "env \<Rightarrow> LogRootV1 \<Rightarrow> bool" where
  "borderChecked env old =
     (case storageIDs (RangeNodesForPrefix (TreeSize old)) of
        Inl e \<Rightarrow> False
      | Inr storIDs \<Rightarrow>
          (case tx_GetMerkleNodes env (Revision old) storIDs of
             Inl e \<Rightarrow> False
           | Inr nodes \<Rightarrow>
               length nodes = length storIDs
               \<and> list_all2 (\<lambda>n sid. Equivalent (NodeID n) sid) nodes storIDs
               \<and> (case NewRange (TreeSize old) (map Hash nodes) of
                     Inl e \<Rightarrow> False
                   | Inr cr \<Rightarrow>
                       (case GetRootHash (hasher_HashChildren env) cr None () of
                          Inl e \<Rightarrow> False
                        | Inr (hash, _) \<Rightarrow> bytes_Equal hash (RootHash old)))))"

definition calm :: "event \<Rightarrow> bool" where
  "calm e \<longleftrightarrow> \<not> isWrite e \<and> \<not> isNodeRead e"

lemma firstMismatch_None:
  "length nodes = length ids \<Longrightarrow> firstMismatch i nodes ids = None \<Longrightarrow>
     list_all2 (\<lambda>n sid. Equivalent (NodeID n) sid) nodes ids"
proof (induction nodes arbitrary: i ids)
  case Nil
  then show ?case by simp
next
  case (Cons n nodes)
  then obtain sid rest where ids: "ids = sid # rest" by (cases ids) auto
  with Cons.prems have "Equivalent (NodeID n) sid" "firstMismatch (Suc i) nodes rest = None"
    "length nodes = length rest"
    by (auto split: if_splits)
  with Cons.IH [of rest "Suc i"] ids show ?case by simp
qed

lemma init_checked:
  assumes "initCompactRangeFromStorage env cur s = (Inr cr, s')" and "TreeSize cur \<noteq> 0"
  shows "borderChecked env cur"
proof -
  from init_Inr(4) [OF assms] obtain ids nodes h where
    a: "storageIDs (RangeNodesForPrefix (TreeSize cur)) = Inr ids"
      "tx_GetMerkleNodes env (Revision cur) ids = Inr nodes"
      "length nodes = length ids"
      "firstMismatch 0 nodes ids = None"
      "NewRange (TreeSize cur) (map Hash nodes) = Inr cr"
      "GetRootHash (hasher_HashChildren env) cr None () = Inr (h, ())"
      "bytes_Equal h (RootHash cur)"
    by blast
  from firstMismatch_None [OF a(3,4)] a show ?thesis
    by (simp add: borderChecked_def)
qed

text \<open>
  \<open>stops l m\<close>: \<open>m\<close> neither writes to storage nor reads Merkle nodes, unless it fails
  on the initialisation of the compact range, and then it has written nothing.
\<close>

definition stops :: "int64 \<Rightarrow> 'a prog \<Rightarrow> bool" where
  "stops l m \<longleftrightarrow>
     (\<forall>s r s'. m s = (r, s') \<longrightarrow>
        (\<exists>es. trace s' = trace s @ es
           \<and> (list_all calm es
               \<or> (\<exists>e. r = Inl (InitFailed l e)) \<and> list_all (\<lambda>e. \<not> isWrite e) es)))"

lemma stopsD:
  assumes "stops l m" and "m s = (r, s')"
  obtains es where "trace s' = trace s @ es"
    "list_all calm es \<or> (\<exists>e. r = Inl (InitFailed l e)) \<and> list_all (\<lambda>e. \<not> isWrite e) es"
  using assms unfolding stops_def by blast

lemma calm_no_write: "list_all calm es \<Longrightarrow> list_all (\<lambda>e. \<not> isWrite e) es"
  by (simp add: list_all_iff calm_def)

lemma stops_quiet:
  assumes "quiet calm m"
  shows "stops l m"
  unfolding stops_def
proof (intro allI impI)
  fix s r s' assume "m s = (r, s')"
  from quietD [OF assms this] obtain es where "trace s' = trace s @ es" "list_all calm es" .
  then show "\<exists>es. trace s' = trace s @ es
           \<and> (list_all calm es
               \<or> (\<exists>e. r = Inl (InitFailed l e)) \<and> list_all (\<lambda>e. \<not> isWrite e) es)"
    by blast
qed

lemma stops_thenDo:
  assumes "quiet calm m" and "\<And>a s s1. m s = (Inr a, s1) \<Longrightarrow> stops l (f a)"
  shows "stops l (thenDo m f)"
  unfolding stops_def
proof (intro allI impI)
  fix s r s' assume run: "thenDo m f s = (r, s')"
  obtain r1 s1 where m: "m s = (r1, s1)" by (cases "m s")
  from quietD [OF assms(1) m] obtain es1 where
    e1: "trace s1 = trace s @ es1" "list_all calm es1" .
  show "\<exists>es. trace s' = trace s @ es
           \<and> (list_all calm es
               \<or> (\<exists>e. r = Inl (InitFailed l e)) \<and> list_all (\<lambda>e. \<not> isWrite e) es)"
  proof (cases r1)
    case (Inl e)
    with run m have "s' = s1" by (simp add: thenDo_def)
    with e1 show ?thesis by blast
  next
    case (Inr a)
    with run m have fa: "f a s1 = (r, s')" by (simp add: thenDo_def)
    from m Inr have "stops l (f a)" by (intro assms(2) [of s a s1]) simp
    from stopsD [OF this fa] obtain es2 where
      e2: "trace s' = trace s1 @ es2"
        "list_all calm es2 \<or> (\<exists>e. r = Inl (InitFailed l e)) \<and> list_all (\<lambda>e. \<not> isWrite e) es2" .
    from e1 e2 have t: "trace s' = trace s @ (es1 @ es2)" by simp
    from e1(2) e2(2) calm_no_write [OF e1(2)]
    have "list_all calm (es1 @ es2)
        \<or> (\<exists>e. r = Inl (InitFailed l e)) \<and> list_all (\<lambda>e. \<not> isWrite e) (es1 @ es2)"
      by auto
    with t show ?thesis by blast
  qed
qed

lemma stops_deferred:
  assumes "stops l m" and "quiet calm d"
  shows "stops l (deferred m d)"
  unfolding stops_def
proof (intro allI impI)
  fix s r s' assume run: "deferred m d s = (r, s')"
  obtain r1 s1 where m: "m s = (r1, s1)" by (cases "m s")
  obtain r2 s2 where d: "d s1 = (r2, s2)" by (cases "d s1")
  from run m d have s': "s' = s2" "r = r1" by (simp_all add: deferred_def)
  from stopsD [OF assms(1) m] obtain es1 where
    e1: "trace s1 = trace s @ es1"
      "list_all calm es1 \<or> (\<exists>e. r1 = Inl (InitFailed l e)) \<and> list_all (\<lambda>e. \<not> isWrite e) es1" .
  from quietD [OF assms(2) d] obtain es2 where
    e2: "trace s2 = trace s1 @ es2" "list_all calm es2" .
  from e1 e2 s' have t: "trace s' = trace s @ (es1 @ es2)" by simp
  from e1(2) e2(2) calm_no_write [OF e2(2)] s'(2)
  have "list_all calm (es1 @ es2)
        \<or> (\<exists>e. r = Inl (InitFailed l e)) \<and> list_all (\<lambda>e. \<not> isWrite e) (es1 @ es2)"
    by auto
  with t show "\<exists>es. trace s' = trace s @ es
           \<and> (list_all calm es
               \<or> (\<exists>e. r = Inl (InitFailed l e)) \<and> list_all (\<lambda>e. \<not> isWrite e) es)"
    by blast
qed

lemma stops_integrate:
  assumes size: "TreeSize cur \<noteq> 0" and bad: "\<not> borderChecked env cur"
  shows "stops (TreeId tree) (integrate env tree cur st fetched)"
  unfolding stops_def
proof (intro allI impI)
  fix s r s' assume run: "integrate env tree cur st fetched s = (r, s')"
  let ?s1 = "s\<lparr>ticks := Suc (ticks s)\<rparr>"
  obtain ri s2 where i: "initCompactRangeFromStorage env cur ?s1 = (ri, s2)"
    by (cases "initCompactRangeFromStorage env cur ?s1")
  have q: "quiet (\<lambda>e. \<not> isWrite e) (initCompactRangeFromStorage env cur)"
    by (rule quiet_init) simp
  from quietD [OF q i] obtain es where
    es: "trace s2 = trace ?s1 @ es" "list_all (\<lambda>e. \<not> isWrite e) es" .
  show "\<exists>es. trace s' = trace s @ es
           \<and> (list_all calm es
               \<or> (\<exists>e. r = Inl (InitFailed (TreeId tree) e)) \<and> list_all (\<lambda>e. \<not> isWrite e) es)"
  proof (cases ri)
    case (Inr cr)
    with i init_checked [of env cur ?s1 cr s2] size bad show ?thesis by simp
  next
    case (Inl e)
    with run i have "r = Inl (InitFailed (TreeId tree) e)" "s' = s2"
      by (simp_all add: integrate_def thenDo_def Now_def wrapErr_def)
    with es show ?thesis by auto
  qed
qed

lemma stops_txBody:
  assumes old: "tx_LatestSignedLogRoot env = Inr sth"
      "root_UnmarshalBinary env (LogRoot sth) = Inr old"
    and size: "TreeSize old \<noteq> 0" and bad: "\<not> borderChecked env old"
  shows "stops (TreeId tree) (txBody env tree limit guardWindow maxRootDurationInterval start)"
  unfolding txBody_def
proof (rule stops_deferred)
  show "quiet calm (thenDo (observeSince env seqLatency (TreeId tree))
          (\<lambda>_. emit (Inc seqBatches (TreeId tree))))"
    by (intro quiet_thenDo quiet_observeSince quiet_emit) (simp_all add: calm_def)
next
  show "stops (TreeId tree)
     (thenDo (loadRoot env tree) (\<lambda>currentRoot.
      thenDo (attempt (selectTask tree) id) (\<lambda>st.
      thenDo (wrapErr (fetch env st (TreeSize currentRoot) (TreeId tree) limit
                         (start + sint (- guardWindow)))
                (LoadBatchFailed (TreeId tree))) (\<lambda>sequencedLeaves.
      thenDo (nothingToIntegrate env currentRoot maxRootDurationInterval sequencedLeaves)
        (\<lambda>nothing.
      if nothing then return (int (length sequencedLeaves), None, None)
      else integrate env tree currentRoot st sequencedLeaves)))))"
  proof (rule stops_thenDo)
    show "quiet calm (loadRoot env tree)"
      by (rule quiet_loadRoot) (simp_all add: calm_def)
  next
    fix cur s s1 assume "loadRoot env tree s = (Inr cur, s1)"
    from loadRoot_Inr(1) [OF this] old have cur: "cur = old" by auto
    show "stops (TreeId tree)
      (thenDo (attempt (selectTask tree) id) (\<lambda>st.
       thenDo (wrapErr (fetch env st (TreeSize cur) (TreeId tree) limit
                         (start + sint (- guardWindow)))
                (LoadBatchFailed (TreeId tree))) (\<lambda>sequencedLeaves.
       thenDo (nothingToIntegrate env cur maxRootDurationInterval sequencedLeaves)
        (\<lambda>nothing.
       if nothing then return (int (length sequencedLeaves), None, None)
       else integrate env tree cur st sequencedLeaves))))"
      unfolding cur
    proof (intro stops_thenDo)
      show "quiet calm (attempt (selectTask tree) id)" by (rule quiet_attempt)
    next
      fix st
      show "quiet calm (wrapErr (fetch env st (TreeSize old) (TreeId tree) limit
                         (start + sint (- guardWindow))) (LoadBatchFailed (TreeId tree)))"
        by (intro quiet_wrapErr quiet_fetch) (simp_all add: calm_def)
    next
      fix ls
      show "quiet calm (nothingToIntegrate env old maxRootDurationInterval ls)"
        by (rule quiet_nothingToIntegrate)
    next
      fix st ls and nothing :: bool
      show "stops (TreeId tree)
         (if nothing then return (int (length ls), None, None)
          else integrate env tree old st ls)"
      proof (cases nothing)
        case True
        have "stops (TreeId tree)
            (return (int (length ls), None :: LogRootV1 option, None :: SignedLogRoot option))"
          by (rule stops_quiet) (rule quiet_return)
        with True show ?thesis by simp
      next
        case False
        with stops_integrate [OF size bad, of tree st ls] show ?thesis by simp
      qed
    qed
  qed
qed


lemma tail_calm: "list_all calm (replenishEvents env n l)"
  by (simp add: replenishEvents_def Let_def calm_def)

text \<open>
  C4. Let \<open>old\<close> be the root the transaction loads. If its tree size is 0,
  \<open>initCompactRangeFromStorage\<close> returns the empty compact range without a call on
  storage and without a check. If its tree size is not 0 and the checks on the border
  nodes do not all pass (\<open>borderChecked\<close>: storage returns as many nodes as requested,
  each returned node ID is equivalent to the requested storage ID of the same position,
  and the root hash recomputed from the returned hashes is byte-equal to the root hash
  of \<open>old\<close>), then \<open>initCompactRangeFromStorage\<close> does not return a compact range, no
  run of \<open>IntegrateBatch\<close> writes anything to storage (no leaves, no Merkle nodes, no
  signed root), and every run that reaches the rebuild and reads the Merkle nodes
  returns a leaf count of 0 with the error of the initialisation.
\<close>

theorem rebuild_checks:
  assumes old: "tx_LatestSignedLogRoot env = Inr sth"
      "root_UnmarshalBinary env (LogRoot sth) = Inr old"
  shows "(TreeSize old = 0 \<longrightarrow>
            initCompactRangeFromStorage env old s = (Inr (NewEmptyRange 0), s))
       \<and> (TreeSize old \<noteq> 0 \<and> \<not> borderChecked env old \<longrightarrow>
            (\<forall>cr s'. initCompactRangeFromStorage env old s \<noteq> (Inr cr, s'))
            \<and> filter isWrite
                 (calls s0 (snd (IntegrateBatch env tree limit guardWindow
                                   maxRootDurationInterval s0))) = []
            \<and> (list_ex isNodeRead
                 (calls s0 (snd (IntegrateBatch env tree limit guardWindow
                                   maxRootDurationInterval s0))) \<longrightarrow>
                (\<exists>e. fst (IntegrateBatch env tree limit guardWindow maxRootDurationInterval s0)
                        = (0, Some (InitFailed (TreeId tree) e)))))"
proof (intro conjI impI)
  assume "TreeSize old = 0"
  then show "initCompactRangeFromStorage env old s = (Inr (NewEmptyRange 0), s)"
    by (simp add: initCompactRangeFromStorage_def return_def)
next
  assume a: "TreeSize old \<noteq> 0 \<and> \<not> borderChecked env old"
  then show "\<forall>cr s'. initCompactRangeFromStorage env old s \<noteq> (Inr cr, s')"
    using init_checked [of env old s] by blast
next
  assume a: "TreeSize old \<noteq> 0 \<and> \<not> borderChecked env old"
  let ?s = "s0\<lparr>ticks := Suc (ticks s0), trace := trace s0 @ [BeginTx]\<rparr>"
  let ?b = "txBody env tree limit guardWindow maxRootDurationInterval (timeSource_Now env (ticks s0))"
  let ?run = "IntegrateBatch env tree limit guardWindow maxRootDurationInterval s0"
  obtain r s' where body: "?b ?s = (r, s')" by (cases "?b ?s")
  from a have st: "stops (TreeId tree) ?b" by (intro stops_txBody [OF old]) simp_all
  from stopsD [OF st body] obtain es where
    es: "trace s' = trace ?s @ es"
      "list_all calm es
       \<or> (\<exists>e. r = Inl (InitFailed (TreeId tree) e)) \<and> list_all (\<lambda>e. \<not> isWrite e) es" .
  have nw: "filter isWrite es = []"
    using es(2) by (auto simp: filter_empty_conv list_all_iff calm_def)
  have "filter isWrite (calls s0 (snd ?run)) = []
      \<and> (list_ex isNodeRead (calls s0 (snd ?run)) \<longrightarrow>
           (\<exists>e. fst ?run = (0, Some (InitFailed (TreeId tree) e))))"
  proof (cases "storage_begin env")
    case (Some e)
    then have "snd ?run = ?s"
      by (simp add: IntegrateBatch_def ReadWriteTransaction_def thenDo_def Now_def call_def
          check_def throw_def)
    then have "calls s0 (snd ?run) = [BeginTx]" by (simp add: calls_def)
    then show ?thesis by simp
  next
    case None
    show ?thesis
    proof (cases r)
      case (Inl e)
      from body_error_run [OF None body [unfolded Inl]]
      have run: "?run = ((0, Some e), s'\<lparr>trace := trace s' @ [Rollback]\<rparr>)" .
      with es(1) have c: "calls s0 (snd ?run) = BeginTx # es @ [Rollback]"
        by (simp add: calls_def)
      have "list_ex isNodeRead es \<Longrightarrow> \<exists>e'. e = InitFailed (TreeId tree) e'"
        using es(2) Inl by (auto simp: list_all_iff list_ex_iff calm_def)
      with c nw run show ?thesis by auto
    next
      case (Inr res)
      with es(2) have calm: "list_all calm es" by auto
      obtain n x y where res: "res = (n, x, y)" by (cases res)
      have "\<exists>tl. calls s0 (snd ?run) = BeginTx # es @ tl \<and> list_all calm tl"
      proof (cases "storage_commit env")
        case (Some e)
        with None body Inr have "snd ?run = s'\<lparr>trace := trace s' @ [Commit]\<rparr>"
          by (simp add: IntegrateBatch_def ReadWriteTransaction_def thenDo_def Now_def call_def
              check_def return_def throw_def)
        with es(1) have "calls s0 (snd ?run) = BeginTx # es @ [Commit]" by (simp add: calls_def)
        then show ?thesis by (intro exI [of _ "[Commit]"]) (simp add: calm_def)
      next
        case c: None
        let ?s1 = "s'\<lparr>trace := trace s' @ [Commit]\<rparr>"
        obtain r2 s2 where q: "replenishQuota env n (TreeId tree) ?s1 = (r2, s2)"
          by (cases "replenishQuota env n (TreeId tree) ?s1")
        from replenishQuota_eq [OF q] have
          r2: "r2 = Inr ()" and t2: "trace s2 = trace ?s1 @ replenishEvents env n (TreeId tree)"
          by simp_all
        from None c body Inr res q r2
        have "snd ?run = s2\<lparr>trace := trace s2 @ [Add seqCounter n (TreeId tree)]\<rparr>"
          by (simp add: IntegrateBatch_def ReadWriteTransaction_def thenDo_def Now_def call_def
              check_def return_def emit_def)
        with es(1) t2 have "calls s0 (snd ?run)
            = BeginTx # es @ (Commit # replenishEvents env n (TreeId tree)
                                @ [Add seqCounter n (TreeId tree)])"
          by (simp add: calls_def)
        with tail_calm [of env n "TreeId tree"] show ?thesis
          by (intro exI [of _ "Commit # replenishEvents env n (TreeId tree) @ [Add seqCounter n (TreeId tree)]"])
            (simp add: calm_def)
      qed
      then obtain tl where c: "calls s0 (snd ?run) = BeginTx # es @ tl" and tl: "list_all calm tl"
        by blast
      from calm tl have "list_all calm (BeginTx # es @ tl)" by (simp add: calm_def)
      with c show ?thesis by (auto simp: list_all_iff list_ex_iff calm_def filter_empty_conv)
    qed
  qed
  then show "filter isWrite (calls s0 (snd ?run)) = []"
    and "list_ex isNodeRead (calls s0 (snd ?run)) \<Longrightarrow>
           \<exists>e. fst ?run = (0, Some (InitFailed (TreeId tree) e))"
    by blast+
qed


definition swappedEnv :: env where
  "swappedEnv = testEnv root3 [testLeaf 13 0] (rev nodes3)"

lemma ids3:
  "storageIDs (RangeNodesForPrefix 3)
     = Inr [\<lparr>Path = 0, PrefixLenBits = 63\<rparr>, \<lparr>Path = 2, PrefixLenBits = 64\<rparr>]"
  by (simp add: run_simps)

lemma not_Equivalent3:
  "\<not> Equivalent \<lparr>Path = 2, PrefixLenBits = 64\<rparr> \<lparr>Path = 0, PrefixLenBits = 63\<rparr>"
proof
  assume "Equivalent \<lparr>Path = 2, PrefixLenBits = 64\<rparr> \<lparr>Path = 0, PrefixLenBits = 63\<rparr>"
  then have "length (bitstring \<lparr>Path = 2, PrefixLenBits = 64\<rparr>)
      = length (bitstring \<lparr>Path = 0, PrefixLenBits = 63\<rparr>)"
    by (simp add: Equivalent_def)
  then show False by (simp add: bitstring_def)
qed

lemma swapped_unchecked: "\<not> borderChecked swappedEnv root3"
  using not_Equivalent3
  by (simp add: borderChecked_def ids3 swappedEnv_def testEnv_def nodes3_def root3_def)

lemma nodes3_checked: "borderChecked (testEnv root3 [testLeaf 13 0] nodes3) root3"
  by (simp add: borderChecked_def ids3 run_simps nodes3_def root3_def)

lemma swapped_run:
  "fst (IntegrateBatch swappedEnv tree7 10 0 0 initState)
     = (0, Some (InitFailed 7 (NodeIDMismatch 0)))
   \<and> calls initState (snd (IntegrateBatch swappedEnv tree7 10 0 0 initState))
     = [BeginTx, LatestSignedLogRoot, Observe seqGetRootLatency 7, SetGauge seqTreeSize 7,
        DequeueLeaves 10 1000, Observe seqDequeueLatency 7,
        GetMerkleNodes 1 [\<lparr>Path = 0, PrefixLenBits = 63\<rparr>, \<lparr>Path = 2, PrefixLenBits = 64\<rparr>],
        Observe seqLatency 7, Inc seqBatches 7, Rollback]"
  using not_Equivalent3
  by (simp add: swappedEnv_def calls_def IntegrateBatch_def ReadWriteTransaction_def txBody_def
      loadRoot_def selectTask_def nothingToIntegrate_def integrate_def
      initCompactRangeFromStorage_def ids3
      thenDo_def return_def throw_def attempt_def check_def emit_def call_def Now_def
      observeSince_def deferred_def wrapErr_def Let_def
      testEnv_def testLeaf_def initState_def tree7_def root3_def nodes3_def)

theorem rebuild_checks_witness:
  "initCompactRangeFromStorage (testEnv freshRoot [] []) freshRoot initState
     = (Inr (NewEmptyRange 0), initState)
   \<and> TreeSize root3 \<noteq> 0
   \<and> borderChecked (testEnv root3 [testLeaf 13 0] nodes3) root3
   \<and> \<not> borderChecked swappedEnv root3
   \<and> list_ex isNodeRead (calls initState (snd (IntegrateBatch swappedEnv tree7 10 0 0 initState)))
   \<and> fst (IntegrateBatch swappedEnv tree7 10 0 0 initState)
       = (0, Some (InitFailed 7 (NodeIDMismatch 0)))
   \<and> filter isWrite (calls initState (snd (IntegrateBatch swappedEnv tree7 10 0 0 initState))) = []"
proof -
  have old0: "tx_LatestSignedLogRoot (testEnv freshRoot [] [])
      = Inr \<lparr>KeyHint = None, LogRoot = Some [], LogRootSignature = None\<rparr>"
    "root_UnmarshalBinary (testEnv freshRoot [] [])
       (LogRoot \<lparr>KeyHint = None, LogRoot = Some [], LogRootSignature = None\<rparr>) = Inr freshRoot"
    by (simp_all add: testEnv_def)
  have size0: "TreeSize freshRoot = 0" by (simp add: freshRoot_def)
  have old3: "tx_LatestSignedLogRoot swappedEnv
      = Inr \<lparr>KeyHint = None, LogRoot = Some [], LogRootSignature = None\<rparr>"
    "root_UnmarshalBinary swappedEnv
       (LogRoot \<lparr>KeyHint = None, LogRoot = Some [], LogRootSignature = None\<rparr>) = Inr root3"
    by (simp_all add: swappedEnv_def testEnv_def)
  have size3: "TreeSize root3 \<noteq> 0" by (simp add: root3_def)
  from rebuild_checks [OF old0, of initState] size0
  have a: "initCompactRangeFromStorage (testEnv freshRoot [] []) freshRoot initState
     = (Inr (NewEmptyRange 0), initState)"
    by blast
  from rebuild_checks [OF old3, of initState initState tree7 10 0 0] size3 swapped_unchecked
  have b: "filter isWrite
     (calls initState (snd (IntegrateBatch swappedEnv tree7 10 0 0 initState))) = []"
    by blast
  have c: "list_ex isNodeRead
     (calls initState (snd (IntegrateBatch swappedEnv tree7 10 0 0 initState)))"
    by (simp add: swapped_run)
  from a b c size3 swapped_unchecked nodes3_checked swapped_run show ?thesis by blast
qed




















end
